theory Spec2Isabelle
  imports Complex_Main
begin

section \<open>The alert monitoring engine of \<^verbatim>\<open>backend/server.py\<close>\<close>

text \<open>
  The embedding follows \<^verbatim>\<open>check_alerts_background\<close> and the parts of the module it uses.
  Prices, thresholds and percentages are Python floats, that is IEEE 754 doubles: finite
  values, the two infinities and NaN, with every arithmetic operation rounded to the
  nearest double and Python's \<^verbatim>\<open>ZeroDivisionError\<close> on a zero divisor.
\<close>

subsection \<open>Python floats\<close>

text \<open>
  A finite double is the real number it denotes. The two zeros are not told apart: they
  compare equal, Python raises on either of them as a divisor, and the sign of a zero
  shows only in the rendered text of a message. Comparisons involving NaN are false.
\<close>

datatype pyfloat = Finite real | PlusInf | MinusInf | NaN

instantiation pyfloat :: "{ord, uminus}"
begin

fun less_eq_pyfloat :: "pyfloat \<Rightarrow> pyfloat \<Rightarrow> bool" where
  "less_eq_pyfloat NaN y = False"
| "less_eq_pyfloat x NaN = False"
| "less_eq_pyfloat MinusInf y = True"
| "less_eq_pyfloat x PlusInf = True"
| "less_eq_pyfloat (Finite x) (Finite y) = (x \<le> y)"
| "less_eq_pyfloat x y = False"

fun less_pyfloat :: "pyfloat \<Rightarrow> pyfloat \<Rightarrow> bool" where
  "less_pyfloat NaN y = False"
| "less_pyfloat x NaN = False"
| "less_pyfloat (Finite x) (Finite y) = (x < y)"
| "less_pyfloat MinusInf MinusInf = False"
| "less_pyfloat PlusInf PlusInf = False"
| "less_pyfloat MinusInf y = True"
| "less_pyfloat x PlusInf = True"
| "less_pyfloat x y = False"

fun uminus_pyfloat :: "pyfloat \<Rightarrow> pyfloat" where
  "uminus_pyfloat (Finite x) = Finite (- x)"
| "uminus_pyfloat PlusInf = MinusInf"
| "uminus_pyfloat MinusInf = PlusInf"
| "uminus_pyfloat NaN = NaN"

instance ..

end

text \<open>
  Rounding of a real number to the nearest double, ties to the even significand
  (binary64: 53 bits, exponents from -1022 to 1023, subnormals in steps of \<open>2 powi (- 1074)\<close>);
  a result of magnitude \<open>2 powi 1024\<close> overflows to an infinity.
\<close>

definition round_half_even :: "real \<Rightarrow> int" where
  "round_half_even x =
     (let n = \<lfloor>x\<rfloor>; d = x - of_int n in
      if d < 1 / 2 then n else if 1 / 2 < d then n + 1 else if even n then n else n + 1)"

definition binade :: "real \<Rightarrow> int" where
  "binade x = max \<lfloor>log 2 \<bar>x\<bar>\<rfloor> (- 1022)"

definition rnd :: "real \<Rightarrow> pyfloat" where
  "rnd x =
     (if x = 0 then Finite 0
      else
        (let q = 2 powi (binade x - 52);
             y = of_int (round_half_even (x / q)) * q in
         if 2 powi 1024 \<le> \<bar>y\<bar> then (if 0 < x then PlusInf else MinusInf) else Finite y))"

text \<open>Python's \<^verbatim>\<open>x - y\<close>, \<^verbatim>\<open>x * y\<close> and \<^verbatim>\<open>x / y\<close> on floats. The division tests the divisor
  for zero first and raises; otherwise the three follow IEEE 754.\<close>

fun fsub :: "pyfloat \<Rightarrow> pyfloat \<Rightarrow> pyfloat" where
  "fsub NaN y = NaN"
| "fsub x NaN = NaN"
| "fsub (Finite x) (Finite y) = rnd (x - y)"
| "fsub PlusInf PlusInf = NaN"
| "fsub MinusInf MinusInf = NaN"
| "fsub PlusInf y = PlusInf"
| "fsub MinusInf y = MinusInf"
| "fsub (Finite x) PlusInf = MinusInf"
| "fsub (Finite x) MinusInf = PlusInf"

fun fmul :: "pyfloat \<Rightarrow> pyfloat \<Rightarrow> pyfloat" where
  "fmul NaN y = NaN"
| "fmul x NaN = NaN"
| "fmul (Finite x) (Finite y) = rnd (x * y)"
| "fmul (Finite x) PlusInf = (if x = 0 then NaN else if 0 < x then PlusInf else MinusInf)"
| "fmul (Finite x) MinusInf = (if x = 0 then NaN else if 0 < x then MinusInf else PlusInf)"
| "fmul PlusInf (Finite y) = (if y = 0 then NaN else if 0 < y then PlusInf else MinusInf)"
| "fmul MinusInf (Finite y) = (if y = 0 then NaN else if 0 < y then MinusInf else PlusInf)"
| "fmul PlusInf PlusInf = PlusInf"
| "fmul MinusInf MinusInf = PlusInf"
| "fmul PlusInf MinusInf = MinusInf"
| "fmul MinusInf PlusInf = MinusInf"

fun quotient :: "pyfloat \<Rightarrow> pyfloat \<Rightarrow> pyfloat" where
  "quotient NaN y = NaN"
| "quotient x NaN = NaN"
| "quotient (Finite x) (Finite y) = rnd (x / y)"
| "quotient PlusInf (Finite y) = (if 0 < y then PlusInf else MinusInf)"
| "quotient MinusInf (Finite y) = (if 0 < y then MinusInf else PlusInf)"
| "quotient (Finite x) PlusInf = Finite 0"
| "quotient (Finite x) MinusInf = Finite 0"
| "quotient x y = NaN"

text \<open>Exceptions (subclasses of \<^verbatim>\<open>Exception\<close>) that the engine can meet.\<close>

datatype exn = ZeroDivisionError | TelegramError string | OtherError string

definition truediv :: "pyfloat \<Rightarrow> pyfloat \<Rightarrow> exn + pyfloat" where
  "truediv x y = (if y = Finite 0 then Inl ZeroDivisionError else Inr (quotient x y))"

subsection \<open>Data model\<close>

text \<open>The pydantic model \<^verbatim>\<open>Alert\<close>, which is also the document stored in \<^verbatim>\<open>db.alerts\<close>
  (field \<^verbatim>\<open>id\<close> is \<open>alert_id\<close>, field \<^verbatim>\<open>value\<close> is \<open>alert_value\<close>; timestamps are the
  ISO strings the documents hold).\<close>

record alert =
  alert_id :: string
  symbol :: string
  alert_type :: string
  alert_value :: pyfloat
  chat_id :: string
  is_active :: bool
  created_at :: string
  triggered_at :: "string option"

text \<open>The request body \<^verbatim>\<open>AlertCreate\<close>.\<close>

record alert_create =
  ac_symbol :: string
  ac_alert_type :: string
  ac_value :: pyfloat
  ac_chat_id :: string

text \<open>
  The notification text. The four f-string templates of the source differ in their fixed
  wording; the model keeps which template was used and the fields it renders
  (symbol, current price, change percent, target), and \<open>Empty\<close> for \<^verbatim>\<open>message = ""\<close>.
\<close>

datatype template = PriceAboveText | PriceBelowText | PercentUpText | PercentDownText

datatype message = Empty | Rendered template string pyfloat pyfloat pyfloat

subsection \<open>Price sample and evaluation\<close>

text \<open>
  Lines 183-188: the argument is the column \<^verbatim>\<open>hist['Close']\<close>, known to be non-empty
  at this point. The result is \<open>(current_price, change_percent)\<close>.
\<close>

definition price_sample :: "pyfloat list \<Rightarrow> exn + (pyfloat \<times> pyfloat)" where
  "price_sample closes =
     (let current_price = last closes in
      if length closes > 1 then
        (let prev_close = closes ! (length closes - 2) in
         case truediv (fsub current_price prev_close) prev_close of
           Inl e \<Rightarrow> Inl e
         | Inr ratio \<Rightarrow> Inr (current_price, fmul ratio (Finite 100)))
      else Inr (current_price, Finite 0))"

text \<open>Lines 190-207: the \<^verbatim>\<open>if\<close>/\<^verbatim>\<open>elif\<close> chain that sets \<^verbatim>\<open>triggered\<close> and \<^verbatim>\<open>message\<close>.\<close>

definition evaluate :: "alert \<Rightarrow> pyfloat \<Rightarrow> pyfloat \<Rightarrow> bool \<times> message" where
  "evaluate alert current_price change_percent =
     (if alert_type alert = ''price_above'' \<and> current_price \<ge> alert_value alert then
        (True, Rendered PriceAboveText (symbol alert) current_price change_percent (alert_value alert))
      else if alert_type alert = ''price_below'' \<and> current_price \<le> alert_value alert then
        (True, Rendered PriceBelowText (symbol alert) current_price change_percent (alert_value alert))
      else if alert_type alert = ''percent_up'' \<and> change_percent \<ge> alert_value alert then
        (True, Rendered PercentUpText (symbol alert) current_price change_percent (alert_value alert))
      else if alert_type alert = ''percent_down'' \<and> change_percent \<le> - alert_value alert then
        (True, Rendered PercentDownText (symbol alert) current_price change_percent (alert_value alert))
      else (False, Empty))"

subsection \<open>The alert store\<close>

text \<open>
  The collection \<^verbatim>\<open>db.alerts\<close> is the list of its documents in natural order.
  \<^verbatim>\<open>find({"is_active": True}).to_list(1000)\<close> returns the first 1000 active documents;
  \<^verbatim>\<open>update_one({"id": i}, {"$set": ...})\<close> changes the first document whose id is \<open>i\<close>
  and nothing when there is none.
\<close>

definition find_active :: "alert list \<Rightarrow> alert list" where
  "find_active docs = take 1000 (filter is_active docs)"

fun update_one :: "string \<Rightarrow> string \<Rightarrow> alert list \<Rightarrow> alert list" where
  "update_one i ts [] = []"
| "update_one i ts (d # docs) =
     (if alert_id d = i then d\<lparr>is_active := False, triggered_at := Some ts\<rparr> # docs
      else d # update_one i ts docs)"

text \<open>
  Lines 114-124, \<^verbatim>\<open>create_alert\<close>: the fresh id (\<^verbatim>\<open>uuid.uuid4()\<close>) and the creation time
  come from outside and are parameters; every field of the request is copied as it is.
\<close>

definition create_alert :: "string \<Rightarrow> string \<Rightarrow> alert_create \<Rightarrow> alert list \<Rightarrow> alert \<times> alert list" where
  "create_alert new_id now alert_input docs =
     (let alert = \<lparr>alert_id = new_id, symbol = ac_symbol alert_input,
                   alert_type = ac_alert_type alert_input, alert_value = ac_value alert_input,
                   chat_id = ac_chat_id alert_input, is_active = True,
                   created_at = now, triggered_at = None\<rparr>
      in (alert, docs @ [alert]))"

subsection \<open>The outside world and the observable steps\<close>

text \<open>
  Every call that leaves the process is recorded as an event, with the alert it was made
  for and its outcome; log lines and sleeps are events too. The world answers each call
  as a function of the time of the call, the number of events so far, so that the same
  call can fail now and succeed later.
\<close>

datatype event =
    Sleep nat
  | Find "exn option"
  | History alert "exn + pyfloat list"
  | SendMessage alert string message "exn option"
  | UpdateOne alert string string "exn option"
  | LogTriggered alert
  | LogErrorChecking alert exn
  | LogErrorBackground exn

record world =
  telegram_bot :: bool
  find_raises :: "nat \<Rightarrow> exn option"
  history :: "nat \<Rightarrow> string \<Rightarrow> exn + pyfloat list"
  send_message :: "nat \<Rightarrow> string \<Rightarrow> message \<Rightarrow> exn option"
  update_raises :: "nat \<Rightarrow> exn option"
  utcnow :: "nat \<Rightarrow> string"

record state =
  db_alerts :: "alert list"
  trace :: "event list"

definition now :: "state \<Rightarrow> nat" where
  "now s = length (trace s)"

definition emit :: "event \<Rightarrow> state \<Rightarrow> state" where
  "emit e s = s\<lparr>trace := trace s @ [e]\<rparr>"

subsection \<open>The monitoring loop\<close>

text \<open>
  Lines 176-225, the body of the inner \<^verbatim>\<open>try\<close>: the result is the exception that left
  the body, if any, and the state reached. An update that raises leaves the store as it was.
\<close>

definition check_alert :: "world \<Rightarrow> alert \<Rightarrow> state \<Rightarrow> exn option \<times> state" where
  "check_alert w alert s0 =
     (let hist = history w (now s0) (symbol alert);
          s1 = emit (History alert hist) s0 in
      case hist of
        Inl e \<Rightarrow> (Some e, s1)
      | Inr closes \<Rightarrow>
          if closes = [] then (None, s1)
          else
            (case price_sample closes of
               Inl e \<Rightarrow> (Some e, s1)
             | Inr (current_price, change_percent) \<Rightarrow>
                 (case evaluate alert current_price change_percent of
                    (False, message) \<Rightarrow> (None, s1)
                  | (True, message) \<Rightarrow>
                      (let sent = send_message w (now s1) (chat_id alert) message;
                           s2 = emit (SendMessage alert (chat_id alert) message sent) s1 in
                       case sent of
                         Some e \<Rightarrow> (Some e, s2)
                       | None \<Rightarrow>
                           (let ts = utcnow w (now s2);
                                res = update_raises w (now s2);
                                s3 = emit (UpdateOne alert (alert_id alert) ts res) s2 in
                            case res of
                              Some e \<Rightarrow> (Some e, s3)
                            | None \<Rightarrow>
                                (None, emit (LogTriggered alert)
                                   (s3\<lparr>db_alerts := update_one (alert_id alert) ts (db_alerts s3)\<rparr>)))))))"

text \<open>Lines 175-229: the inner \<^verbatim>\<open>try\<close> with its \<^verbatim>\<open>except Exception\<close>, one pass of the \<^verbatim>\<open>for\<close> loop.\<close>

definition handle_alert :: "world \<Rightarrow> alert \<Rightarrow> state \<Rightarrow> state" where
  "handle_alert w alert s =
     (case check_alert w alert s of
        (None, s') \<Rightarrow> s'
      | (Some e, s') \<Rightarrow> emit (LogErrorChecking alert e) s')"

text \<open>Lines 168-231, the body of the outer \<^verbatim>\<open>try\<close>.\<close>

definition cycle_body :: "world \<Rightarrow> state \<Rightarrow> exn option \<times> state" where
  "cycle_body w s =
     (if \<not> telegram_bot w then (None, emit (Sleep 30) s)
      else
        (let res = find_raises w (now s);
             s1 = emit (Find res) s in
         case res of
           Some e \<Rightarrow> (Some e, s1)
         | None \<Rightarrow>
             (let alerts = find_active (db_alerts s1) in
              (None, emit (Sleep 30) (fold (handle_alert w) alerts s1)))))"

text \<open>Lines 167-235: one pass of \<^verbatim>\<open>while True\<close>, the outer \<^verbatim>\<open>try\<close> with its handler.\<close>

definition iteration :: "world \<Rightarrow> state \<Rightarrow> state" where
  "iteration w s =
     (case cycle_body w s of
        (None, s') \<Rightarrow> s'
      | (Some e, s') \<Rightarrow> emit (Sleep 30) (emit (LogErrorBackground e) s'))"

text \<open>The first \<open>n\<close> passes of the loop.\<close>

fun run :: "world \<Rightarrow> nat \<Rightarrow> state \<Rightarrow> state" where
  "run w 0 s = s"
| "run w (Suc n) s = run w n (iteration w s)"

text \<open>
  \<^verbatim>\<open>check_alerts_background\<close> itself, lines 165-235, observed after \<open>n\<close> passes of
  \<^verbatim>\<open>while True\<close>: it is still running in some state, or it has returned, or an exception
  has left it. The loop has no \<^verbatim>\<open>break\<close> and no \<^verbatim>\<open>return\<close>, and its body is the
  \<^verbatim>\<open>try\<close> statement whose handler logs and sleeps.
\<close>

datatype outcome = Running state | Returned state | Raised exn state

fun check_alerts_background :: "nat \<Rightarrow> world \<Rightarrow> state \<Rightarrow> outcome" where
  "check_alerts_background 0 w s = Running s"
| "check_alerts_background (Suc n) w s =
     (case cycle_body w s of
        (None, s') \<Rightarrow> check_alerts_background n w s'
      | (Some e, s') \<Rightarrow>
          check_alerts_background n w (emit (Sleep 30) (emit (LogErrorBackground e) s')))"

subsection \<open>Reading the trace\<close>

text \<open>The events a computation added to the trace.\<close>

definition events_since :: "state \<Rightarrow> state \<Rightarrow> event list" where
  "events_since s s' = drop (length (trace s)) (trace s')"

text \<open>The alert an event was made for, and the events made for one alert.\<close>

fun about :: "event \<Rightarrow> alert option" where
  "about (History a r) = Some a"
| "about (SendMessage a c m r) = Some a"
| "about (UpdateOne a i ts r) = Some a"
| "about (LogTriggered a) = Some a"
| "about (LogErrorChecking a e) = Some a"
| "about (Sleep n) = None"
| "about (Find r) = None"
| "about (LogErrorBackground e) = None"

definition events_about :: "alert \<Rightarrow> event list \<Rightarrow> event list" where
  "events_about a evs = filter (\<lambda>e. about e = Some a) evs"

text \<open>The alerts whose quotes were requested, in the order of the requests.\<close>

fun fetched :: "event list \<Rightarrow> alert list" where
  "fetched [] = []"
| "fetched (History a r # evs) = a # fetched evs"
| "fetched (e # evs) = fetched evs"

text \<open>The updates that went through, as pairs of id and timestamp, and their effect on
  the store.\<close>

fun commits :: "event list \<Rightarrow> (string \<times> string) list" where
  "commits [] = []"
| "commits (UpdateOne a i ts None # evs) = (i, ts) # commits evs"
| "commits (e # evs) = commits evs"

fun apply_commits :: "(string \<times> string) list \<Rightarrow> alert list \<Rightarrow> alert list" where
  "apply_commits [] docs = docs"
| "apply_commits ((i, ts) # cs) docs = apply_commits cs (update_one i ts docs)"

fun notifies_or_commits :: "event \<Rightarrow> bool" where
  "notifies_or_commits (SendMessage a c m r) = True"
| "notifies_or_commits (UpdateOne a i ts r) = True"
| "notifies_or_commits e = False"

text \<open>
  The seven ways through \<open>handle_alert\<close> for an alert whose handling starts at time \<open>t\<close>,
  each given by the answers of the world that select it and by the events it leaves: the
  fetch raised; the history was empty; the division of line 188 raised; the condition did
  not hold; the send raised; the update raised; the alert fired.
\<close>

inductive segment :: "world \<Rightarrow> nat \<Rightarrow> alert \<Rightarrow> event list \<Rightarrow> bool" for w t a where
  fetch_raised:
    "history w t (symbol a) = Inl e \<Longrightarrow>
     segment w t a [History a (Inl e), LogErrorChecking a e]"
| empty_history:
    "history w t (symbol a) = Inr [] \<Longrightarrow>
     segment w t a [History a (Inr [])]"
| sample_raised:
    "history w t (symbol a) = Inr closes \<Longrightarrow> closes \<noteq> [] \<Longrightarrow>
     price_sample closes = Inl e \<Longrightarrow>
     segment w t a [History a (Inr closes), LogErrorChecking a e]"
| not_triggered:
    "history w t (symbol a) = Inr closes \<Longrightarrow> closes \<noteq> [] \<Longrightarrow>
     price_sample closes = Inr (p, c) \<Longrightarrow> \<not> fst (evaluate a p c) \<Longrightarrow>
     segment w t a [History a (Inr closes)]"
| send_raised:
    "history w t (symbol a) = Inr closes \<Longrightarrow> closes \<noteq> [] \<Longrightarrow>
     price_sample closes = Inr (p, c) \<Longrightarrow> evaluate a p c = (True, m) \<Longrightarrow>
     send_message w (Suc t) (chat_id a) m = Some e \<Longrightarrow>
     segment w t a [History a (Inr closes), SendMessage a (chat_id a) m (Some e),
                    LogErrorChecking a e]"
| update_raised:
    "history w t (symbol a) = Inr closes \<Longrightarrow> closes \<noteq> [] \<Longrightarrow>
     price_sample closes = Inr (p, c) \<Longrightarrow> evaluate a p c = (True, m) \<Longrightarrow>
     send_message w (Suc t) (chat_id a) m = None \<Longrightarrow>
     update_raises w (Suc (Suc t)) = Some e \<Longrightarrow>
     segment w t a [History a (Inr closes), SendMessage a (chat_id a) m None,
                    UpdateOne a (alert_id a) (utcnow w (Suc (Suc t))) (Some e),
                    LogErrorChecking a e]"
| fired:
    "history w t (symbol a) = Inr closes \<Longrightarrow> closes \<noteq> [] \<Longrightarrow>
     price_sample closes = Inr (p, c) \<Longrightarrow> evaluate a p c = (True, m) \<Longrightarrow>
     send_message w (Suc t) (chat_id a) m = None \<Longrightarrow>
     update_raises w (Suc (Suc t)) = None \<Longrightarrow>
     segment w t a [History a (Inr closes), SendMessage a (chat_id a) m None,
                    UpdateOne a (alert_id a) (utcnow w (Suc (Suc t))) None, LogTriggered a]"

text \<open>
  The events of the \<^verbatim>\<open>for\<close> loop over a snapshot, each alert starting when the one before
  has been handled, and the three shapes of a pass of \<^verbatim>\<open>while True\<close> that starts at time
  \<open>t\<close>: no bot, snapshot read raised, snapshot processed.
\<close>

inductive segments :: "world \<Rightarrow> nat \<Rightarrow> alert list \<Rightarrow> event list \<Rightarrow> bool" for w where
  none: "segments w t [] []"
| more:
    "segment w t a seg \<Longrightarrow> segments w (t + length seg) as evs \<Longrightarrow>
     segments w t (a # as) (seg @ evs)"

inductive cycle_events :: "world \<Rightarrow> nat \<Rightarrow> alert list \<Rightarrow> event list \<Rightarrow> bool" for w t docs where
  idle: "\<not> telegram_bot w \<Longrightarrow> cycle_events w t docs [Sleep 30]"
| find_raised:
    "telegram_bot w \<Longrightarrow> find_raises w t = Some e \<Longrightarrow>
     cycle_events w t docs [Find (Some e), LogErrorBackground e, Sleep 30]"
| processed:
    "telegram_bot w \<Longrightarrow> find_raises w t = None \<Longrightarrow>
     segments w (Suc t) (find_active docs) evs \<Longrightarrow>
     cycle_events w t docs (Find None # evs @ [Sleep 30])"

text \<open>Every update in a trace comes directly after a send for the same alert that did
  not raise.\<close>

definition notify_first :: "event list \<Rightarrow> bool" where
  "notify_first evs =
     (\<forall>k<length evs. \<forall>a i ts r. evs ! k = UpdateOne a i ts r \<longrightarrow>
        0 < k \<and> i = alert_id a \<and> (\<exists>m. evs ! (k - 1) = SendMessage a (chat_id a) m None))"

subsection \<open>Reading the store\<close>

text \<open>
  A document \<open>d'\<close> is \<open>d\<close> as it was, or \<open>d\<close> fired: inactive, with a trigger time.
  A document is coherent when its trigger time is set exactly when it is inactive.
  No document with id \<open>i\<close> is active.
\<close>

definition fired_or_same :: "alert \<Rightarrow> alert \<Rightarrow> bool" where
  "fired_or_same d d' =
     (d' = d \<or>
      (case triggered_at d' of
         None \<Rightarrow> False
       | Some ts \<Rightarrow> d' = d\<lparr>is_active := False, triggered_at := Some ts\<rparr>))"

definition coherent :: "alert \<Rightarrow> bool" where
  "coherent d = ((triggered_at d \<noteq> None) = (\<not> is_active d))"

definition inactive_id :: "string \<Rightarrow> alert list \<Rightarrow> bool" where
  "inactive_id i docs = list_all (\<lambda>d. alert_id d \<noteq> i \<or> \<not> is_active d) docs"

subsection \<open>Examples\<close>

text \<open>Alert documents: price alerts on a symbol with quotes, one on a symbol whose fetch
  raises, one on a symbol whose previous close is zero, one with a chat that cannot be
  reached, one of an unknown kind, and one that has fired already.\<close>

definition example_alert :: "string \<Rightarrow> string \<Rightarrow> string \<Rightarrow> pyfloat \<Rightarrow> alert" where
  "example_alert i sy kind v =
     \<lparr>alert_id = i, symbol = sy, alert_type = kind, alert_value = v,
      chat_id = ''42'', is_active = True, created_at = ''2024-01-01T00:00:00+00:00'',
      triggered_at = None\<rparr>"

definition thyao_above :: alert where
  "thyao_above = example_alert ''a2'' ''THYAO.IS'' ''price_above'' (Finite 100)"

definition thyao_above_90 :: alert where
  "thyao_above_90 = example_alert ''a6'' ''THYAO.IS'' ''price_above'' (Finite 90)"

definition bad_above :: alert where
  "bad_above = example_alert ''a1'' ''BAD.IS'' ''price_above'' (Finite 100)"

definition zero_above :: alert where
  "zero_above = example_alert ''a5'' ''ZERO.IS'' ''price_above'' (Finite 100)"

definition muted_above :: alert where
  "muted_above = (example_alert ''a4'' ''THYAO.IS'' ''price_above'' (Finite 100))\<lparr>chat_id := ''13''\<rparr>"

definition thyao_crosses :: alert where
  "thyao_crosses = example_alert ''a3'' ''THYAO.IS'' ''crosses_above'' (Finite 100)"

definition garan_fired :: alert where
  "garan_fired =
     (example_alert ''a0'' ''GARAN.IS'' ''price_below'' (Finite 10))
       \<lparr>is_active := False, triggered_at := Some ''2024-01-01T12:00:00+00:00''\<rparr>"

text \<open>
  Worlds: in all of them the clock shows one fixed time. With \<open>example_history\<close> the
  fetch raises for \<^verbatim>\<open>BAD.IS\<close>, returns the closes 0 and 5 for \<^verbatim>\<open>ZERO.IS\<close> and the closes
  80 and 100 for every other symbol.
\<close>

definition example_world ::
  "bool \<Rightarrow> (nat \<Rightarrow> exn option) \<Rightarrow> (nat \<Rightarrow> string \<Rightarrow> exn + pyfloat list) \<Rightarrow>
   (nat \<Rightarrow> string \<Rightarrow> message \<Rightarrow> exn option) \<Rightarrow> world" where
  "example_world has_bot find_res hist send =
     \<lparr>telegram_bot = has_bot, find_raises = find_res, history = hist, send_message = send,
      update_raises = (\<lambda>t. None), utcnow = (\<lambda>t. ''2024-01-02T00:00:00+00:00'')\<rparr>"

definition example_history :: "nat \<Rightarrow> string \<Rightarrow> exn + pyfloat list" where
  "example_history t sy =
     (if sy = ''BAD.IS'' then Inl (OtherError ''timeout'')
      else if sy = ''ZERO.IS'' then Inr [Finite 0, Finite 5]
      else Inr [Finite 80, Finite 100])"

definition quotes_world :: world where
  "quotes_world = example_world True (\<lambda>t. None) example_history (\<lambda>t c m. None)"

definition telegram_down_world :: world where
  "telegram_down_world =
     example_world True (\<lambda>t. None) example_history (\<lambda>t c m. Some (TelegramError ''timed out''))"

definition telegram_recovers_world :: world where
  "telegram_recovers_world =
     example_world True (\<lambda>t. None) example_history
       (\<lambda>t c m. if t < 5 then Some (TelegramError ''timed out'') else None)"

definition no_data_world :: world where
  "no_data_world = example_world True (\<lambda>t. None) (\<lambda>t sy. Inr []) (\<lambda>t c m. None)"

definition no_bot_world :: world where
  "no_bot_world = example_world False (\<lambda>t. None) example_history (\<lambda>t c m. None)"

definition store_down_world :: world where
  "store_down_world =
     example_world True (\<lambda>t. Some (OtherError ''store down'')) example_history (\<lambda>t c m. None)"

text \<open>A world in which chat 13 cannot be reached and the update made at time 10 raises.\<close>

definition faulty_world :: world where
  "faulty_world =
     (example_world True (\<lambda>t. None) example_history
        (\<lambda>t c m. if c = ''13'' then Some (TelegramError ''blocked'') else None))
       \<lparr>update_raises := (\<lambda>t. if t = 10 then Some (OtherError ''write failed'') else None)\<rparr>"

text \<open>A starting state: the given documents and an empty trace.\<close>

definition example_state :: "alert list \<Rightarrow> state" where
  "example_state docs = \<lparr>db_alerts = docs, trace = []\<rparr>"

section \<open>Auxiliary facts\<close>

subsection \<open>Rounding\<close>

lemma two_powr_int: "(2::real) powr real_of_int j = 2 powi j"
  by (simp add: powr_real_of_int')

lemma binade_eq:
  assumes "2 powi k \<le> \<bar>x\<bar>" and "\<bar>x\<bar> < 2 powi (k + 1)"
  shows "binade x = max k (- 1022)"
proof -
  have "(0::real) < 2 powi k" by simp
  with assms(1) have pos: "0 < \<bar>x\<bar>" by linarith
  have "(2::real) powr real_of_int k \<le> \<bar>x\<bar>"
    using assms(1) by (simp only: two_powr_int)
  with pos have lo: "real_of_int k \<le> log 2 \<bar>x\<bar>" by (simp add: le_log_iff)
  have "\<bar>x\<bar> < (2::real) powr real_of_int (k + 1)"
    using assms(2) by (simp only: two_powr_int)
  with pos have hi: "log 2 \<bar>x\<bar> < real_of_int (k + 1)" by (simp add: log_less_iff)
  from lo hi have "\<lfloor>log 2 \<bar>x\<bar>\<rfloor> = k" by (simp add: floor_eq_iff)
  then show ?thesis by (simp add: binade_def)
qed

lemma rnd_in_binade:
  assumes "2 powi k \<le> \<bar>x\<bar>" and "\<bar>x\<bar> < 2 powi (k + 1)"
  shows "rnd x =
     (let q = 2 powi (max k (- 1022) - 52);
          y = of_int (round_half_even (x / q)) * q in
      if 2 powi 1024 \<le> \<bar>y\<bar> then (if 0 < x then PlusInf else MinusInf) else Finite y)"
proof -
  have "(0::real) < 2 powi k" by simp
  with assms(1) have "0 < \<bar>x\<bar>" by linarith
  then have "x \<noteq> 0" by simp
  then show ?thesis by (simp add: rnd_def binade_eq [OF assms])
qed

text \<open>The roundings that the examples need: those of \<open>(100 - 80) / 80 * 100\<close>, which
  are exact; those of \<open>(129 - 100) / 100 * 100\<close>, which is not 29 in doubles, and of
  \<open>(101 - 95) / 95 * 100\<close>; and an overflow.\<close>

lemma rnd_20: "rnd 20 = Finite 20"
  by (subst rnd_in_binade [where k = 4]) (simp_all add: round_half_even_def Let_def)

lemma rnd_quarter: "rnd (1 / 4) = Finite (1 / 4)"
  by (subst rnd_in_binade [where k = "- 2"]) (simp_all add: round_half_even_def Let_def)

lemma rnd_25: "rnd 25 = Finite 25"
  by (subst rnd_in_binade [where k = 4]) (simp_all add: round_half_even_def Let_def)

lemma rnd_29: "rnd 29 = Finite 29"
  by (subst rnd_in_binade [where k = 4]) (simp_all add: round_half_even_def Let_def)

lemma rnd_29_100: "rnd (29 / 100) = Finite (5224175567749775 / 18014398509481984)"
  by (subst rnd_in_binade [where k = "- 2"]) (simp_all add: round_half_even_def Let_def)

lemma rnd_29_back:
  "rnd (130604389193744375 / 4503599627370496) = Finite (8162774324609023 / 281474976710656)"
  by (subst rnd_in_binade [where k = 4]) (simp_all add: round_half_even_def Let_def)

lemma rnd_6: "rnd 6 = Finite 6"
  by (subst rnd_in_binade [where k = 2]) (simp_all add: round_half_even_def Let_def)

lemma rnd_6_95: "rnd (6 / 95) = Finite (2275502969618777 / 36028797018963968)"
  by (subst rnd_in_binade [where k = "- 4"]) (simp_all add: round_half_even_def Let_def)

lemma rnd_6_back:
  "rnd (56887574240469425 / 9007199254740992) = Finite (3555473390029339 / 562949953421312)"
  by (subst rnd_in_binade [where k = 2]) (simp_all add: round_half_even_def Let_def)

lemma rnd_overflow: "rnd (- (2 ^ 1024)) = MinusInf"
  by (subst rnd_in_binade [where k = 1024]) (simp_all add: round_half_even_def Let_def)

lemma price_sample_single: "price_sample [x] = Inr (x, Finite 0)"
  by (simp add: price_sample_def)

lemma price_sample_80_100: "price_sample [Finite 80, Finite 100] = Inr (Finite 100, Finite 25)"
  by (simp add: price_sample_def truediv_def rnd_20 rnd_quarter rnd_25)

lemma price_sample_100_129:
  "price_sample [Finite 100, Finite 129] =
     Inr (Finite 129, Finite (8162774324609023 / 281474976710656))"
  by (simp add: price_sample_def truediv_def rnd_29 rnd_29_100 rnd_29_back)

lemma price_sample_95_101:
  "price_sample [Finite 95, Finite 101] =
     Inr (Finite 101, Finite (3555473390029339 / 562949953421312))"
  by (simp add: price_sample_def truediv_def rnd_6 rnd_6_95 rnd_6_back)

lemma price_sample_overflow:
  "price_sample [Finite (2 ^ 1023), Finite (- (2 ^ 1023))] = Inr (Finite (- (2 ^ 1023)), MinusInf)"
proof -
  have "- (2 ^ 1023) - 2 ^ 1023 = (- (2 ^ 1024) :: real)" by simp
  then show ?thesis
    by (simp add: price_sample_def truediv_def rnd_overflow del: power_numeral)
qed

lemma price_sample_nan: "price_sample [Finite 100, NaN] = Inr (NaN, NaN)"
  by (simp add: price_sample_def truediv_def)

lemma price_sample_0_5: "price_sample [Finite 0, Finite 5] = Inl ZeroDivisionError"
  by (simp add: price_sample_def truediv_def)

subsection \<open>One alert, one cycle\<close>

lemma trace_emit [simp]: "trace (emit e s) = trace s @ [e]"
  by (simp add: emit_def)

lemma db_alerts_emit [simp]: "db_alerts (emit e s) = db_alerts s"
  by (simp add: emit_def)

lemma now_emit [simp]: "now (emit e s) = Suc (now s)"
  by (simp add: now_def)

lemma handle_alert_segment:
  "\<exists>evs. trace (handle_alert w a s) = trace s @ evs \<and> segment w (now s) a evs \<and>
         db_alerts (handle_alert w a s) = apply_commits (commits evs) (db_alerts s)"
proof (cases "history w (now s) (symbol a)")
  case (Inl e)
  then have "segment w (now s) a [History a (Inl e), LogErrorChecking a e]"
    by (rule segment.fetch_raised)
  with Inl show ?thesis
    by (auto simp: handle_alert_def check_alert_def)
next
  case (Inr closes)
  show ?thesis
  proof (cases "closes = []")
    case True
    with Inr have "segment w (now s) a [History a (Inr [])]"
      by (auto intro: segment.empty_history)
    with Inr True show ?thesis
      by (auto simp: handle_alert_def check_alert_def)
  next
    case False
    show ?thesis
    proof (cases "price_sample closes")
      case (Inl e)
      with Inr False have "segment w (now s) a [History a (Inr closes), LogErrorChecking a e]"
        by (rule segment.sample_raised)
      with Inl Inr False show ?thesis
        by (auto simp: handle_alert_def check_alert_def)
    next
      case sample: (Inr pc)
      obtain p c where pc: "pc = (p, c)" by (cases pc)
      obtain tr m where ev: "evaluate a p c = (tr, m)" by (cases "evaluate a p c")
      from sample pc have sample': "price_sample closes = Inr (p, c)" by simp
      show ?thesis
      proof (cases tr)
        case False
        with ev have "\<not> fst (evaluate a p c)" by simp
        with Inr \<open>closes \<noteq> []\<close> sample' have "segment w (now s) a [History a (Inr closes)]"
          by (rule segment.not_triggered)
        with Inr \<open>closes \<noteq> []\<close> sample' ev False show ?thesis
          by (auto simp: handle_alert_def check_alert_def)
      next
        case True
        with ev have ev': "evaluate a p c = (True, m)" by simp
        show ?thesis
        proof (cases "send_message w (Suc (now s)) (chat_id a) m")
          case (Some e)
          with Inr \<open>closes \<noteq> []\<close> sample' ev'
          have "segment w (now s) a
            [History a (Inr closes), SendMessage a (chat_id a) m (Some e), LogErrorChecking a e]"
            by (rule segment.send_raised)
          with Some Inr \<open>closes \<noteq> []\<close> sample' ev' show ?thesis
            by (auto simp: handle_alert_def check_alert_def Let_def)
        next
          case None
          show ?thesis
          proof (cases "update_raises w (Suc (Suc (now s)))")
            case (Some e)
            with Inr \<open>closes \<noteq> []\<close> sample' ev' None
            have "segment w (now s) a
              [History a (Inr closes), SendMessage a (chat_id a) m None,
               UpdateOne a (alert_id a) (utcnow w (Suc (Suc (now s)))) (Some e),
               LogErrorChecking a e]"
              by (rule segment.update_raised)
            with Some None Inr \<open>closes \<noteq> []\<close> sample' ev' show ?thesis
              by (auto simp: handle_alert_def check_alert_def Let_def)
          next
            case upd: None
            with Inr \<open>closes \<noteq> []\<close> sample' ev' None
            have "segment w (now s) a
              [History a (Inr closes), SendMessage a (chat_id a) m None,
               UpdateOne a (alert_id a) (utcnow w (Suc (Suc (now s)))) None, LogTriggered a]"
              by (rule segment.fired)
            with upd None Inr \<open>closes \<noteq> []\<close> sample' ev' show ?thesis
              by (auto simp: handle_alert_def check_alert_def Let_def)
          qed
        qed
      qed
    qed
  qed
qed

lemma commits_append: "commits (xs @ ys) = commits xs @ commits ys"
  by (induction xs rule: commits.induct) auto

lemma fetched_append: "fetched (xs @ ys) = fetched xs @ fetched ys"
  by (induction xs rule: fetched.induct) auto

lemma apply_commits_append:
  "apply_commits (cs @ cs') docs = apply_commits cs' (apply_commits cs docs)"
  by (induction cs arbitrary: docs) auto

lemma fold_handle_alert_segments:
  "\<exists>evs. trace (fold (handle_alert w) as s) = trace s @ evs \<and> segments w (now s) as evs \<and>
         db_alerts (fold (handle_alert w) as s) = apply_commits (commits evs) (db_alerts s)"
proof (induction as arbitrary: s)
  case Nil
  show ?case by (auto intro: segments.none)
next
  case (Cons a as)
  obtain seg where seg: "trace (handle_alert w a s) = trace s @ seg" "segment w (now s) a seg"
    "db_alerts (handle_alert w a s) = apply_commits (commits seg) (db_alerts s)"
    using handle_alert_segment [of w a s] by blast
  obtain evs where evs:
    "trace (fold (handle_alert w) as (handle_alert w a s)) = trace (handle_alert w a s) @ evs"
    "segments w (now (handle_alert w a s)) as evs"
    "db_alerts (fold (handle_alert w) as (handle_alert w a s)) =
       apply_commits (commits evs) (db_alerts (handle_alert w a s))"
    using Cons.IH [of "handle_alert w a s"] by blast
  from seg(1) have "now (handle_alert w a s) = now s + length seg"
    by (simp add: now_def)
  with evs(2) have "segments w (now s + length seg) as evs" by simp
  with seg(2) have "segments w (now s) (a # as) (seg @ evs)"
    by (rule segments.more)
  moreover have "trace (fold (handle_alert w) (a # as) s) = trace s @ (seg @ evs)"
    using seg(1) evs(1) by simp
  moreover have "db_alerts (fold (handle_alert w) (a # as) s) =
    apply_commits (commits (seg @ evs)) (db_alerts s)"
    using seg(3) evs(3) by (simp add: commits_append apply_commits_append)
  ultimately show ?case by blast
qed

lemma iteration_cycle_events:
  "\<exists>evs. trace (iteration w s) = trace s @ evs \<and> cycle_events w (now s) (db_alerts s) evs \<and>
         db_alerts (iteration w s) = apply_commits (commits evs) (db_alerts s)"
proof (cases "telegram_bot w")
  case False
  then have "cycle_events w (now s) (db_alerts s) [Sleep 30]"
    by (rule cycle_events.idle)
  with False show ?thesis
    by (auto simp: iteration_def cycle_body_def)
next
  case True
  show ?thesis
  proof (cases "find_raises w (now s)")
    case (Some e)
    with True
    have "cycle_events w (now s) (db_alerts s) [Find (Some e), LogErrorBackground e, Sleep 30]"
      by (rule cycle_events.find_raised)
    with True Some show ?thesis
      by (auto simp: iteration_def cycle_body_def Let_def)
  next
    case None
    let ?s1 = "emit (Find None) s"
    obtain evs where evs:
      "trace (fold (handle_alert w) (find_active (db_alerts ?s1)) ?s1) = trace ?s1 @ evs"
      "segments w (now ?s1) (find_active (db_alerts ?s1)) evs"
      "db_alerts (fold (handle_alert w) (find_active (db_alerts ?s1)) ?s1) =
         apply_commits (commits evs) (db_alerts ?s1)"
      using fold_handle_alert_segments [of w "find_active (db_alerts ?s1)" ?s1] by blast
    from evs(2) have "segments w (Suc (now s)) (find_active (db_alerts s)) evs" by simp
    with True None
    have "cycle_events w (now s) (db_alerts s) (Find None # evs @ [Sleep 30])"
      by (rule cycle_events.processed)
    moreover have "trace (iteration w s) = trace s @ (Find None # evs @ [Sleep 30])"
      using True None evs(1) by (simp add: iteration_def cycle_body_def Let_def)
    moreover have "db_alerts (iteration w s) =
        apply_commits (commits (Find None # evs @ [Sleep 30])) (db_alerts s)"
      using True None evs(3) by (simp add: iteration_def cycle_body_def Let_def commits_append)
    ultimately show ?thesis by blast
  qed
qed

subsection \<open>Facts about segments\<close>

lemma segment_about: "segment w t a seg \<Longrightarrow> e \<in> set seg \<Longrightarrow> about e = Some a"
  by (erule segment.cases) auto

lemma segment_fetched: "segment w t a seg \<Longrightarrow> fetched seg = [a]"
  by (erule segment.cases) auto

lemma segment_commits:
  "segment w t a seg \<Longrightarrow>
   commits seg = [] \<or> (\<exists>ts. commits seg = [(alert_id a, ts)] \<and> UpdateOne a (alert_id a) ts None \<in> set seg)"
  by (erule segment.cases) auto

lemma segments_fetched: "segments w t as evs \<Longrightarrow> fetched evs = as"
  by (induction rule: segments.induct) (auto simp: fetched_append segment_fetched)

lemma segments_about: "segments w t as evs \<Longrightarrow> e \<in> set evs \<Longrightarrow> \<exists>a\<in>set as. about e = Some a"
  by (induction rule: segments.induct) (auto dest: segment_about)

lemma segments_commits:
  "segments w t as evs \<Longrightarrow> (i, ts) \<in> set (commits evs) \<Longrightarrow>
   \<exists>a\<in>set as. alert_id a = i \<and> UpdateOne a i ts None \<in> set evs"
proof (induction rule: segments.induct)
  case none
  then show ?case by simp
next
  case (more t a seg as evs)
  from more.prems have "(i, ts) \<in> set (commits seg) \<or> (i, ts) \<in> set (commits evs)"
    by (simp add: commits_append)
  then show ?case
  proof
    assume "(i, ts) \<in> set (commits seg)"
    with segment_commits [OF more.hyps(1)] show ?thesis by auto
  next
    assume "(i, ts) \<in> set (commits evs)"
    with more.IH show ?thesis by auto
  qed
qed

lemma events_about_append:
  "events_about a (xs @ ys) = events_about a xs @ events_about a ys"
  by (simp add: events_about_def)

lemma events_about_own: "segment w t a seg \<Longrightarrow> events_about a seg = seg"
  unfolding events_about_def by (rule filter_True) (auto dest: segment_about)

lemma events_about_other: "segment w t b seg \<Longrightarrow> a \<noteq> b \<Longrightarrow> events_about a seg = []"
  unfolding events_about_def by (auto simp: filter_empty_conv dest: segment_about)

lemma events_about_absent: "segments w t as evs \<Longrightarrow> a \<notin> set as \<Longrightarrow> events_about a evs = []"
  unfolding events_about_def by (auto simp: filter_empty_conv dest: segments_about)

lemma events_about_segments:
  "segments w t as evs \<Longrightarrow> distinct as \<Longrightarrow> a \<in> set as \<Longrightarrow>
   \<exists>t'. segment w t' a (events_about a evs)"
proof (induction rule: segments.induct)
  case (none t)
  then show ?case by simp
next
  case (more t b seg as evs)
  show ?case
  proof (cases "a = b")
    case True
    with more.prems have "a \<notin> set as" by simp
    with more.hyps(2) have "events_about a evs = []" by (rule events_about_absent)
    with True more.hyps(1) have "segment w t a (events_about a (seg @ evs))"
      by (simp add: events_about_append events_about_own)
    then show ?thesis ..
  next
    case False
    with more.hyps(1) have "events_about a seg = []" by (simp add: events_about_other)
    moreover from False more.prems have "distinct as" "a \<in> set as" by auto
    ultimately show ?thesis using more.IH by (simp add: events_about_append)
  qed
qed

lemma in_events_about: "e \<in> set evs \<Longrightarrow> about e = Some a \<Longrightarrow> e \<in> set (events_about a evs)"
  by (simp add: events_about_def)

subsection \<open>Facts about the store\<close>

lemma fired_or_same_iff:
  "fired_or_same d d' = (d' = d \<or> (\<exists>ts. d' = d\<lparr>is_active := False, triggered_at := Some ts\<rparr>))"
  by (auto simp: fired_or_same_def split: option.splits)

lemma update_one_ids [simp]: "map alert_id (update_one i ts docs) = map alert_id docs"
  by (induction docs) auto

lemma apply_commits_ids [simp]: "map alert_id (apply_commits cs docs) = map alert_id docs"
  by (induction cs docs rule: apply_commits.induct) auto

lemma fired_or_same_refl [simp]: "fired_or_same d d"
  by (simp add: fired_or_same_iff)

lemma fired_or_same_trans:
  "fired_or_same d d' \<Longrightarrow> fired_or_same d' d'' \<Longrightarrow> fired_or_same d d''"
  unfolding fired_or_same_iff by auto

lemma list_all2_fired_or_same_refl [simp]: "list_all2 fired_or_same docs docs"
  by (simp add: list.rel_refl)

lemma update_one_fired_or_same: "list_all2 fired_or_same docs (update_one i ts docs)"
proof (induction docs)
  case Nil
  show ?case by simp
next
  case (Cons d docs)
  have "fired_or_same d (d\<lparr>is_active := False, triggered_at := Some ts\<rparr>)"
    unfolding fired_or_same_iff by blast
  with Cons show ?case by simp
qed

lemma list_all2_fired_or_same_trans:
  "list_all2 fired_or_same xs ys \<Longrightarrow> list_all2 fired_or_same ys zs \<Longrightarrow>
   list_all2 fired_or_same xs zs"
  by (rule list_all2_trans [of fired_or_same fired_or_same fired_or_same])
     (auto intro: fired_or_same_trans)

lemma apply_commits_fired_or_same: "list_all2 fired_or_same docs (apply_commits cs docs)"
proof (induction cs docs rule: apply_commits.induct)
  case (1 docs)
  show ?case by simp
next
  case (2 i ts cs docs)
  show ?case
    using update_one_fired_or_same [of docs i ts] "2.IH"
    by (auto intro: list_all2_fired_or_same_trans)
qed

lemma update_one_other:
  "d \<in> set docs \<Longrightarrow> alert_id d \<noteq> i \<Longrightarrow> d \<in> set (update_one i ts docs)"
  by (induction docs) auto

lemma apply_commits_other:
  "d \<in> set docs \<Longrightarrow> alert_id d \<notin> fst ` set cs \<Longrightarrow> d \<in> set (apply_commits cs docs)"
  by (induction cs docs rule: apply_commits.induct) (auto simp: update_one_other)

lemma update_one_fires:
  "distinct (map alert_id docs) \<Longrightarrow> d \<in> set (update_one i ts docs) \<Longrightarrow> alert_id d = i \<Longrightarrow>
   \<not> is_active d"
proof (induction docs)
  case Nil
  then show ?case by simp
next
  case (Cons x docs)
  show ?case
  proof (cases "alert_id x = i")
    case True
    with Cons.prems(2)
    have "d = x\<lparr>is_active := False, triggered_at := Some ts\<rparr> \<or> d \<in> set docs"
      by simp
    then show ?thesis
    proof
      assume "d = x\<lparr>is_active := False, triggered_at := Some ts\<rparr>"
      then show ?thesis by simp
    next
      assume "d \<in> set docs"
      then have "alert_id d \<in> alert_id ` set docs" by (rule imageI)
      with Cons.prems(1,3) True show ?thesis by simp
    qed
  next
    case False
    with Cons.prems(2) have "d = x \<or> d \<in> set (update_one i ts docs)" by simp
    then show ?thesis
    proof
      assume "d = x"
      with False Cons.prems(3) show ?thesis by simp
    next
      assume "d \<in> set (update_one i ts docs)"
      moreover from Cons.prems(1) have "distinct (map alert_id docs)" by simp
      ultimately show ?thesis using Cons.IH Cons.prems(3) by blast
    qed
  qed
qed

lemma find_active_subset: "a \<in> set (find_active docs) \<Longrightarrow> a \<in> set docs \<and> is_active a"
  by (auto simp: find_active_def dest: in_set_takeD)

lemma find_active_distinct_ids:
  "distinct (map alert_id docs) \<Longrightarrow> distinct (map alert_id (find_active docs))"
  by (simp add: find_active_def take_map [symmetric] distinct_map_filter distinct_take
           del: take_map)

lemma distinct_ids_distinct: "distinct (map alert_id docs) \<Longrightarrow> distinct docs"
  by (simp add: distinct_map)

lemma distinct_ids_same:
  "distinct (map alert_id docs) \<Longrightarrow> a \<in> set docs \<Longrightarrow> b \<in> set docs \<Longrightarrow>
   alert_id a = alert_id b \<Longrightarrow> a = b"
  by (auto simp: distinct_map dest: inj_onD)

lemma fired_or_same_active: "fired_or_same d d' \<Longrightarrow> is_active d' \<Longrightarrow> d' = d"
  unfolding fired_or_same_iff by auto

lemma fired_or_same_inactive: "fired_or_same d d' \<Longrightarrow> \<not> is_active d \<Longrightarrow> \<not> is_active d'"
  unfolding fired_or_same_iff by auto

lemma fired_or_same_coherent: "fired_or_same d d' \<Longrightarrow> coherent d \<Longrightarrow> coherent d'"
  unfolding fired_or_same_iff coherent_def by auto

lemma active_member_was_member:
  "list_all2 fired_or_same xs ys \<Longrightarrow> a \<in> set ys \<Longrightarrow> is_active a \<Longrightarrow> a \<in> set xs"
  by (induction rule: list_all2_induct) (auto dest: fired_or_same_active)

lemma snapshot_member_persists:
  "list_all2 fired_or_same docs docs' \<Longrightarrow> distinct docs \<Longrightarrow>
   a \<in> set (take n (filter is_active docs)) \<Longrightarrow> a \<in> set docs' \<Longrightarrow> is_active a \<Longrightarrow>
   a \<in> set (take n (filter is_active docs'))"
proof (induction arbitrary: n rule: list_all2_induct)
  case Nil
  then show ?case by simp
next
  case (Cons x xs y ys)
  from Cons.prems(1) have dist: "distinct xs" "x \<notin> set xs" by auto
  show ?case
  proof (cases "is_active y")
    case True
    with Cons.hyps(1) have yx: "y = x" by (rule fired_or_same_active)
    with True Cons.prems(2) obtain m where n: "n = Suc m"
      by (cases n) auto
    show ?thesis
    proof (cases "a = x")
      case True
      with yx \<open>is_active y\<close> n show ?thesis by simp
    next
      case False
      with Cons.prems(2,3) yx \<open>is_active y\<close> n
      have "a \<in> set (take m (filter is_active xs))" "a \<in> set ys" by auto
      with Cons.IH [of m] dist(1) Cons.prems(4)
      have "a \<in> set (take m (filter is_active ys))" by blast
      with yx \<open>is_active y\<close> n show ?thesis by simp
    qed
  next
    case False
    with Cons.prems(3,4) have a_ys: "a \<in> set ys" by auto
    with Cons.hyps(2) Cons.prems(4) have "a \<in> set xs" by (blast dest: active_member_was_member)
    with dist(2) have ax: "a \<noteq> x" by auto
    show ?thesis
    proof (cases "is_active x")
      case True
      with Cons.prems(2) obtain m where n: "n = Suc m"
        by (cases n) auto
      with True ax Cons.prems(2) have "a \<in> set (take m (filter is_active xs))" by auto
      with Cons.IH [of m] dist(1) a_ys Cons.prems(4)
      have "a \<in> set (take m (filter is_active ys))" by blast
      moreover have "set (take m (filter is_active ys)) \<subseteq> set (take n (filter is_active ys))"
        unfolding n by (rule set_take_subset_set_take) simp
      ultimately show ?thesis using False by auto
    next
      case x_inactive: False
      with Cons.prems(2) have "a \<in> set (take n (filter is_active xs))" by simp
      with Cons.IH [of n] dist(1) a_ys Cons.prems(4)
      have "a \<in> set (take n (filter is_active ys))" by blast
      with False show ?thesis by simp
    qed
  qed
qed

lemma find_active_member_persists:
  "list_all2 fired_or_same docs docs' \<Longrightarrow> distinct (map alert_id docs) \<Longrightarrow>
   a \<in> set (find_active docs) \<Longrightarrow> a \<in> set docs' \<Longrightarrow> a \<in> set (find_active docs')"
  unfolding find_active_def
  by (rule snapshot_member_persists) (auto dest: distinct_ids_distinct in_set_takeD)

subsection \<open>Several passes of the loop\<close>

lemma events_since_append: "trace s' = trace s @ evs \<Longrightarrow> events_since s s' = evs"
  by (simp add: events_since_def)

lemma iteration_events:
  "trace (iteration w s) = trace s @ events_since s (iteration w s) \<and>
   cycle_events w (now s) (db_alerts s) (events_since s (iteration w s)) \<and>
   db_alerts (iteration w s) =
     apply_commits (commits (events_since s (iteration w s))) (db_alerts s)"
proof -
  obtain evs where evs: "trace (iteration w s) = trace s @ evs" "cycle_events w (now s) (db_alerts s) evs"
    "db_alerts (iteration w s) = apply_commits (commits evs) (db_alerts s)"
    using iteration_cycle_events [of w s] by blast
  from evs(1) have "events_since s (iteration w s) = evs" by (rule events_since_append)
  with evs show ?thesis by simp
qed

lemma run_trace: "trace (run w n s) = trace s @ events_since s (run w n s)"
proof (induction n arbitrary: s)
  case 0
  show ?case by (simp add: events_since_def)
next
  case (Suc n)
  have "trace (run w (Suc n) s) =
      trace (iteration w s) @ events_since (iteration w s) (run w n (iteration w s))"
    using Suc [of "iteration w s"] by simp
  also have "trace (iteration w s) = trace s @ events_since s (iteration w s)"
    using iteration_events [of w s] by blast
  finally have t: "trace (run w (Suc n) s) =
      trace s @ (events_since s (iteration w s) @ events_since (iteration w s) (run w n (iteration w s)))"
    by simp
  from t have "events_since s (run w (Suc n) s) =
      events_since s (iteration w s) @ events_since (iteration w s) (run w n (iteration w s))"
    by (rule events_since_append)
  with t show ?case by (simp only:)
qed

lemma events_since_run_Suc:
  "events_since s (run w (Suc n) s) =
     events_since s (iteration w s) @ events_since (iteration w s) (run w n (iteration w s))"
proof -
  have "trace (run w (Suc n) s) =
      trace (iteration w s) @ events_since (iteration w s) (run w n (iteration w s))"
    using run_trace [of w n "iteration w s"] by simp
  also have "trace (iteration w s) = trace s @ events_since s (iteration w s)"
    using iteration_events [of w s] by blast
  finally have "trace (run w (Suc n) s) =
      trace s @ (events_since s (iteration w s) @ events_since (iteration w s) (run w n (iteration w s)))"
    by simp
  then show ?thesis by (rule events_since_append)
qed

lemma run_add: "run w (m + n) s = run w n (run w m s)"
  by (induction m arbitrary: s) auto

lemma iteration_fired_or_same:
  "list_all2 fired_or_same (db_alerts s) (db_alerts (iteration w s))"
  using iteration_events [of w s] by (simp add: apply_commits_fired_or_same)

lemma run_fired_or_same: "list_all2 fired_or_same (db_alerts s) (db_alerts (run w n s))"
proof (induction n arbitrary: s)
  case 0
  show ?case by simp
next
  case (Suc n)
  show ?case
    using iteration_fired_or_same [of s w] Suc [of "iteration w s"]
    by (auto intro: list_all2_fired_or_same_trans)
qed

lemma iteration_ids: "map alert_id (db_alerts (iteration w s)) = map alert_id (db_alerts s)"
  using iteration_events [of w s] by simp

lemma run_ids: "map alert_id (db_alerts (run w n s)) = map alert_id (db_alerts s)"
  by (induction n arbitrary: s) (auto simp: iteration_ids)

lemma iteration_idle: "\<not> telegram_bot w \<Longrightarrow> iteration w s = emit (Sleep 30) s"
  by (simp add: iteration_def cycle_body_def)

lemma run_idle:
  "\<not> telegram_bot w \<Longrightarrow>
   trace (run w n s) = trace s @ replicate n (Sleep 30) \<and> db_alerts (run w n s) = db_alerts s"
proof (induction n arbitrary: s)
  case 0
  show ?case by simp
next
  case (Suc n)
  from Suc.IH [OF Suc.prems, of "emit (Sleep 30) s"] Suc.prems show ?case
    by (simp add: iteration_idle)
qed

subsection \<open>The shape of a pass\<close>

lemma loop_runs_passes: "check_alerts_background n w s = Running (run w n s)"
proof (induction n arbitrary: s)
  case 0
  show ?case by simp
next
  case (Suc n)
  obtain r s' where body: "cycle_body w s = (r, s')" by (cases "cycle_body w s")
  show ?case
  proof (cases r)
    case None
    with body have "iteration w s = s'" by (simp add: iteration_def)
    with body None Suc [of s'] show ?thesis by simp
  next
    case (Some e)
    with body have "iteration w s = emit (Sleep 30) (emit (LogErrorBackground e) s')"
      by (simp add: iteration_def)
    with body Some Suc [of "emit (Sleep 30) (emit (LogErrorBackground e) s')"] show ?thesis
      by simp
  qed
qed

lemma segment_no_sleep: "segment w t a seg \<Longrightarrow> count_list seg (Sleep k) = 0"
  by (erule segment.cases) auto

lemma segments_no_sleep: "segments w t as evs \<Longrightarrow> count_list evs (Sleep k) = 0"
  by (induction rule: segments.induct) (auto simp: segment_no_sleep)

lemma segment_no_background_error: "segment w t a seg \<Longrightarrow> LogErrorBackground e \<notin> set seg"
  by (erule segment.cases) auto

lemma segments_no_background_error: "segments w t as evs \<Longrightarrow> LogErrorBackground e \<notin> set evs"
  by (induction rule: segments.induct) (auto simp: segment_no_background_error)

lemma cycle_events_one_sleep:
  "cycle_events w t docs evs \<Longrightarrow> count_list evs (Sleep 30) = 1 \<and> last evs = Sleep 30"
  by (erule cycle_events.cases) (auto simp: segments_no_sleep)

lemma run_sleeps: "count_list (events_since s (run w n s)) (Sleep 30) = n"
proof (induction n arbitrary: s)
  case 0
  show ?case by (simp add: events_since_def)
next
  case (Suc n)
  have "count_list (events_since s (iteration w s)) (Sleep 30) = 1"
    using iteration_events [of w s] cycle_events_one_sleep by blast
  with Suc [of "iteration w s"] show ?case
    by (simp only: events_since_run_Suc count_list_append)
qed

lemma iteration_find_raised:
  "telegram_bot w \<Longrightarrow> find_raises w (now s) = Some e \<Longrightarrow>
   iteration w s = emit (Sleep 30) (emit (LogErrorBackground e) (emit (Find (Some e)) s))"
  by (simp add: iteration_def cycle_body_def Let_def)

lemma iteration_processed:
  "telegram_bot w \<Longrightarrow> find_raises w (now s) = None \<Longrightarrow>
   \<exists>evs. segments w (Suc (now s)) (find_active (db_alerts s)) evs \<and>
         events_since s (iteration w s) = Find None # evs @ [Sleep 30]"
proof -
  assume bot: "telegram_bot w" and ok: "find_raises w (now s) = None"
  let ?s1 = "emit (Find None) s"
  obtain evs where evs:
    "trace (fold (handle_alert w) (find_active (db_alerts ?s1)) ?s1) = trace ?s1 @ evs"
    "segments w (now ?s1) (find_active (db_alerts ?s1)) evs"
    using fold_handle_alert_segments [of w "find_active (db_alerts ?s1)" ?s1] by blast
  have "trace (iteration w s) = trace s @ (Find None # evs @ [Sleep 30])"
    using bot ok evs(1) by (simp add: iteration_def cycle_body_def Let_def)
  then have "events_since s (iteration w s) = Find None # evs @ [Sleep 30]"
    by (rule events_since_append)
  with evs(2) show ?thesis by simp
qed

subsection \<open>Order of notification and commit\<close>

lemma notify_first_Nil [simp]: "notify_first []"
  by (simp add: notify_first_def)

lemma notify_first_append:
  assumes "notify_first xs" and "notify_first ys"
  shows "notify_first (xs @ ys)"
  unfolding notify_first_def
proof (intro allI impI)
  fix k a i ts r
  assume k: "k < length (xs @ ys)" and upd: "(xs @ ys) ! k = UpdateOne a i ts r"
  show "0 < k \<and> i = alert_id a \<and> (\<exists>m. (xs @ ys) ! (k - 1) = SendMessage a (chat_id a) m None)"
  proof (cases "k < length xs")
    case True
    with upd have "xs ! k = UpdateOne a i ts r" by (simp add: nth_append)
    with assms(1) True
    have "0 < k \<and> i = alert_id a \<and> (\<exists>m. xs ! (k - 1) = SendMessage a (chat_id a) m None)"
      unfolding notify_first_def by blast
    moreover from True have "k - 1 < length xs" by arith
    then have "(xs @ ys) ! (k - 1) = xs ! (k - 1)"
      by (simp only: nth_append if_True)
    ultimately show ?thesis by simp
  next
    case False
    let ?j = "k - length xs"
    from False k have j: "?j < length ys" by simp
    from False upd have "ys ! ?j = UpdateOne a i ts r" by (simp add: nth_append)
    with assms(2) j
    have *: "0 < ?j \<and> i = alert_id a \<and> (\<exists>m. ys ! (?j - 1) = SendMessage a (chat_id a) m None)"
      unfolding notify_first_def by blast
    then have "\<not> k - 1 < length xs" "k - 1 - length xs = ?j - 1" by arith+
    then have "(xs @ ys) ! (k - 1) = ys ! (?j - 1)" by (simp add: nth_append)
    with * show ?thesis by auto
  qed
qed

lemma notify_first_no_update:
  "\<forall>e\<in>set evs. \<forall>a i ts r. e \<noteq> UpdateOne a i ts r \<Longrightarrow> notify_first evs"
  unfolding notify_first_def by (metis nth_mem)

lemma notify_first_update:
  "notify_first [History a h, SendMessage a (chat_id a) m None, UpdateOne a (alert_id a) ts r, e]"
  if "\<forall>a i ts r. e \<noteq> UpdateOne a i ts r"
  unfolding notify_first_def
proof (intro allI impI)
  fix k a' i ts' r'
  assume k: "k < length [History a h, SendMessage a (chat_id a) m None, UpdateOne a (alert_id a) ts r, e]"
    and upd: "[History a h, SendMessage a (chat_id a) m None, UpdateOne a (alert_id a) ts r, e] ! k
      = UpdateOne a' i ts' r'"
  from k have "k = 0 \<or> k = 1 \<or> k = 2 \<or> k = 3" by auto
  with upd that have "k = 2" by auto
  with upd show "0 < k \<and> i = alert_id a' \<and>
    (\<exists>m'. [History a h, SendMessage a (chat_id a) m None, UpdateOne a (alert_id a) ts r, e] ! (k - 1)
       = SendMessage a' (chat_id a') m' None)"
    by auto
qed

lemma notify_first_segment: "segment w t a seg \<Longrightarrow> notify_first seg"
proof (erule segment.cases)
qed (auto intro: notify_first_no_update notify_first_update)

lemma notify_first_segments: "segments w t as evs \<Longrightarrow> notify_first evs"
  by (induction rule: segments.induct) (auto intro: notify_first_append notify_first_segment)

lemma notify_first_cycle: "cycle_events w t docs evs \<Longrightarrow> notify_first evs"
proof (erule cycle_events.cases)
  show "evs = [Sleep 30] \<Longrightarrow> notify_first evs"
    by (auto intro: notify_first_no_update)
  show "\<And>e. evs = [Find (Some e), LogErrorBackground e, Sleep 30] \<Longrightarrow> notify_first evs"
    by (auto intro: notify_first_no_update)
  fix evs'
  assume evs: "evs = Find None # evs' @ [Sleep 30]" and segs: "segments w (Suc t) (find_active docs) evs'"
  have "notify_first [Find None]" "notify_first [Sleep 30]"
    by (auto intro: notify_first_no_update)
  with notify_first_segments [OF segs] have "notify_first ([Find None] @ evs' @ [Sleep 30])"
    by (intro notify_first_append)
  with evs show "notify_first evs" by simp
qed

lemma notify_first_run: "notify_first (events_since s (run w n s))"
proof (induction n arbitrary: s)
  case 0
  show ?case by (simp add: events_since_def)
next
  case (Suc n)
  have "notify_first (events_since s (iteration w s))"
    using iteration_events [of w s] notify_first_cycle by blast
  with Suc [of "iteration w s"] show ?case
    by (simp only: events_since_run_Suc notify_first_append)
qed

subsection \<open>Fired alerts stay fired\<close>

lemma commits_mem: "UpdateOne a i ts None \<in> set evs \<Longrightarrow> (i, ts) \<in> set (commits evs)"
  by (induction evs rule: commits.induct) auto

lemma fired_or_same_id: "fired_or_same d d' \<Longrightarrow> alert_id d' = alert_id d"
  unfolding fired_or_same_iff by auto

lemma inactive_id_preserved:
  "list_all2 fired_or_same docs docs' \<Longrightarrow> inactive_id i docs \<Longrightarrow> inactive_id i docs'"
  unfolding inactive_id_def
  by (induction rule: list_all2_induct)
     (auto dest: fired_or_same_id fired_or_same_inactive)

lemma update_one_inactive_id:
  "distinct (map alert_id docs) \<Longrightarrow> inactive_id i (update_one i ts docs)"
  unfolding inactive_id_def list_all_iff using update_one_fires by blast

lemma apply_commits_fires:
  "distinct (map alert_id docs) \<Longrightarrow> (i, ts) \<in> set cs \<Longrightarrow> inactive_id i (apply_commits cs docs)"
proof (induction cs docs rule: apply_commits.induct)
  case (1 docs)
  then show ?case by simp
next
  case (2 j t cs docs)
  show ?case
  proof (cases "(i, ts) = (j, t)")
    case True
    with "2.prems"(1) have "inactive_id i (update_one j t docs)"
      by (simp add: update_one_inactive_id)
    with apply_commits_fired_or_same [of "update_one j t docs" cs] show ?thesis
      by (simp add: inactive_id_preserved)
  next
    case False
    with "2.prems" have "(i, ts) \<in> set cs" "distinct (map alert_id (update_one j t docs))"
      by auto
    with "2.IH" show ?thesis by simp
  qed
qed

lemma iteration_fires:
  "distinct (map alert_id (db_alerts s)) \<Longrightarrow>
   UpdateOne a i ts None \<in> set (events_since s (iteration w s)) \<Longrightarrow>
   inactive_id i (db_alerts (iteration w s))"
proof -
  assume dist: "distinct (map alert_id (db_alerts s))"
    and upd: "UpdateOne a i ts None \<in> set (events_since s (iteration w s))"
  from upd have "(i, ts) \<in> set (commits (events_since s (iteration w s)))"
    by (rule commits_mem)
  with dist
  have "inactive_id i (apply_commits (commits (events_since s (iteration w s))) (db_alerts s))"
    by (rule apply_commits_fires)
  with iteration_events [of w s] show ?thesis by simp
qed

lemma run_fires:
  "distinct (map alert_id (db_alerts s)) \<Longrightarrow>
   UpdateOne a i ts None \<in> set (events_since s (run w m s)) \<Longrightarrow>
   inactive_id i (db_alerts (run w m s))"
proof (induction m arbitrary: s)
  case 0
  then show ?case by (simp add: events_since_def)
next
  case (Suc m)
  from Suc.prems(2)
  have "UpdateOne a i ts None \<in> set (events_since s (iteration w s)) \<or>
        UpdateOne a i ts None \<in> set (events_since (iteration w s) (run w m (iteration w s)))"
    by (simp only: events_since_run_Suc set_append Un_iff)
  then show ?case
  proof
    assume "UpdateOne a i ts None \<in> set (events_since s (iteration w s))"
    with Suc.prems(1) have "inactive_id i (db_alerts (iteration w s))"
      by (rule iteration_fires)
    with run_fired_or_same [of "iteration w s" w m] show ?thesis
      by (simp add: inactive_id_preserved)
  next
    assume "UpdateOne a i ts None \<in> set (events_since (iteration w s) (run w m (iteration w s)))"
    moreover from Suc.prems(1) have "distinct (map alert_id (db_alerts (iteration w s)))"
      by (simp add: iteration_ids)
    ultimately show ?thesis using Suc.IH by simp
  qed
qed

lemma list_all2_member:
  "list_all2 R xs ys \<Longrightarrow> y \<in> set ys \<Longrightarrow> \<exists>x\<in>set xs. R x y"
  by (induction rule: list_all2_induct) auto

subsection \<open>What one pass does to one alert\<close>

lemma events_about_cycle:
  "events_about a (Find r # evs @ [Sleep n]) = events_about a evs"
  by (simp add: events_about_def)

lemma iteration_alert_events:
  assumes dist: "distinct (map alert_id (db_alerts s))"
    and e: "e \<in> set (events_since s (iteration w s))" "about e = Some a"
  shows "telegram_bot w \<and> a \<in> set (find_active (db_alerts s)) \<and>
         (\<exists>t. segment w t a (events_about a (events_since s (iteration w s))))"
proof -
  have bot: "telegram_bot w"
  proof (rule ccontr)
    assume "\<not> telegram_bot w"
    then have "events_since s (iteration w s) = [Sleep 30]"
      by (simp add: iteration_idle events_since_def)
    with e show False by auto
  qed
  have "find_raises w (now s) = None"
  proof (cases "find_raises w (now s)")
    case (Some x)
    with bot have "events_since s (iteration w s) = [Find (Some x), LogErrorBackground x, Sleep 30]"
      by (simp add: iteration_find_raised events_since_def)
    with e show ?thesis by auto
  qed
  with bot obtain evs where evs: "segments w (Suc (now s)) (find_active (db_alerts s)) evs"
    "events_since s (iteration w s) = Find None # evs @ [Sleep 30]"
    using iteration_processed by blast
  from e evs(2) have "e \<in> set evs" by auto
  with evs(1) e(2) have a: "a \<in> set (find_active (db_alerts s))"
    by (auto dest: segments_about)
  from dist have "distinct (find_active (db_alerts s))"
    by (intro distinct_ids_distinct find_active_distinct_ids)
  with evs(1) a have "\<exists>t. segment w t a (events_about a evs)"
    using events_about_segments by blast
  with bot a evs(2) show ?thesis by (simp add: events_about_cycle)
qed

lemma cycle_commits:
  "cycle_events w t docs evs \<Longrightarrow> (i, ts) \<in> set (commits evs) \<Longrightarrow>
   \<exists>b\<in>set (find_active docs). alert_id b = i \<and> UpdateOne b i ts None \<in> set evs"
proof (erule cycle_events.cases)
  fix evs'
  assume c: "(i, ts) \<in> set (commits evs)" and evs: "evs = Find None # evs' @ [Sleep 30]"
    and segs: "segments w (Suc t) (find_active docs) evs'"
  from c evs have "(i, ts) \<in> set (commits evs')" by (simp add: commits_append)
  with segs have "\<exists>b\<in>set (find_active docs). alert_id b = i \<and> UpdateOne b i ts None \<in> set evs'"
    by (rule segments_commits)
  with evs show ?thesis by auto
qed auto

lemma iteration_keeps_unfired:
  assumes dist: "distinct (map alert_id (db_alerts s))"
    and a: "a \<in> set (db_alerts s)"
    and none: "\<forall>ts. UpdateOne a (alert_id a) ts None \<notin> set (events_since s (iteration w s))"
  shows "a \<in> set (db_alerts (iteration w s))"
proof -
  let ?evs = "events_since s (iteration w s)"
  have "alert_id a \<notin> fst ` set (commits ?evs)"
  proof
    assume "alert_id a \<in> fst ` set (commits ?evs)"
    then obtain ts where "(alert_id a, ts) \<in> set (commits ?evs)" by force
    with iteration_events [of w s] obtain b where
      b: "b \<in> set (find_active (db_alerts s))" "alert_id b = alert_id a"
        "UpdateOne b (alert_id a) ts None \<in> set ?evs"
      using cycle_commits by blast
    from b(1) have "b \<in> set (db_alerts s)" by (simp add: find_active_subset)
    with dist a b(2) have "b = a" by (auto dest: distinct_ids_same)
    with b(3) none show False by simp
  qed
  with a have "a \<in> set (apply_commits (commits ?evs) (db_alerts s))"
    by (rule apply_commits_other)
  with iteration_events [of w s] show ?thesis by simp
qed

lemma next_pass_fetches:
  "telegram_bot w \<Longrightarrow> find_raises w (now s) = None \<Longrightarrow>
   fetched (events_since s (iteration w s)) = find_active (db_alerts s)"
proof -
  assume "telegram_bot w" "find_raises w (now s) = None"
  then obtain evs where evs: "segments w (Suc (now s)) (find_active (db_alerts s)) evs"
    "events_since s (iteration w s) = Find None # evs @ [Sleep 30]"
    using iteration_processed by blast
  from evs(1) have "fetched evs = find_active (db_alerts s)" by (rule segments_fetched)
  with evs(2) show ?thesis by (simp add: fetched_append)
qed

lemma unfired_alert_stays:
  assumes dist: "distinct (map alert_id (db_alerts s))"
    and e: "e \<in> set (events_since s (iteration w s))" "about e = Some a"
    and none: "commits (events_about a (events_since s (iteration w s))) = []"
  shows "a \<in> set (db_alerts s) \<and> is_active a \<and> a \<in> set (db_alerts (iteration w s)) \<and>
         a \<in> set (find_active (db_alerts (iteration w s))) \<and>
         (find_raises w (now (iteration w s)) = None \<longrightarrow>
            a \<in> set (fetched (events_since (iteration w s) (iteration w (iteration w s)))))"
proof -
  let ?s' = "iteration w s"
  from iteration_alert_events [OF dist e]
  have bot: "telegram_bot w" and snap: "a \<in> set (find_active (db_alerts s))" by auto
  from snap have a: "a \<in> set (db_alerts s)" "is_active a" by (auto dest: find_active_subset)
  have "\<forall>ts. UpdateOne a (alert_id a) ts None \<notin> set (events_since s ?s')"
  proof (intro allI notI)
    fix ts
    assume "UpdateOne a (alert_id a) ts None \<in> set (events_since s ?s')"
    then have "UpdateOne a (alert_id a) ts None \<in> set (events_about a (events_since s ?s'))"
      by (rule in_events_about) simp
    then have "(alert_id a, ts) \<in> set (commits (events_about a (events_since s ?s')))"
      by (rule commits_mem)
    with none show False by simp
  qed
  with dist a(1) have a': "a \<in> set (db_alerts ?s')" by (rule iteration_keeps_unfired)
  have snap': "a \<in> set (find_active (db_alerts ?s'))"
    using iteration_fired_or_same [of s w] dist snap a'
    by (rule find_active_member_persists)
  have "find_raises w (now ?s') = None \<longrightarrow>
      a \<in> set (fetched (events_since ?s' (iteration w ?s')))"
    using bot snap' by (simp add: next_pass_fetches)
  with a a' snap' show ?thesis by simp
qed

lemma segment_send_failed:
  "segment w t a seg \<Longrightarrow> SendMessage a c m (Some e) \<in> set seg \<Longrightarrow>
   \<exists>closes. seg = [History a (Inr closes), SendMessage a c m (Some e), LogErrorChecking a e]"
  by (erule segment.cases) auto

lemma segment_fetch_failed:
  "segment w t a seg \<Longrightarrow> History a r \<in> set seg \<Longrightarrow> r = Inr [] \<or> r = Inl e \<Longrightarrow>
   seg = History a r # (case r of Inl x \<Rightarrow> [LogErrorChecking a x] | Inr closes \<Rightarrow> [])"
  by (erule segment.cases) auto

lemma segment_unknown_kind:
  "segment w t a seg \<Longrightarrow>
   alert_type a \<notin> {''price_above'', ''price_below'', ''percent_up'', ''percent_down''} \<Longrightarrow>
   ev \<in> set seg \<Longrightarrow> \<not> notifies_or_commits ev"
  by (erule segment.cases) (auto simp: evaluate_def)

lemma unknown_kind_iteration:
  assumes dist: "distinct (map alert_id (db_alerts s))"
    and a: "a \<in> set (db_alerts s)"
    and kind: "alert_type a \<notin> {''price_above'', ''price_below'', ''percent_up'', ''percent_down''}"
  shows "a \<in> set (db_alerts (iteration w s)) \<and>
         (\<forall>ev\<in>set (events_since s (iteration w s)). about ev = Some a \<longrightarrow> \<not> notifies_or_commits ev)"
proof -
  let ?evs = "events_since s (iteration w s)"
  have quiet: "\<not> notifies_or_commits ev" if "ev \<in> set ?evs" "about ev = Some a" for ev
  proof -
    from iteration_alert_events [OF dist that]
    obtain t where seg: "segment w t a (events_about a ?evs)" by blast
    from that have "ev \<in> set (events_about a ?evs)" by (rule in_events_about)
    with seg kind show ?thesis by (rule segment_unknown_kind)
  qed
  have "\<forall>ts. UpdateOne a (alert_id a) ts None \<notin> set ?evs"
    using quiet by fastforce
  with dist a have "a \<in> set (db_alerts (iteration w s))" by (rule iteration_keeps_unfired)
  with quiet show ?thesis by blast
qed

lemma unknown_kind_run:
  assumes kind: "alert_type a \<notin> {''price_above'', ''price_below'', ''percent_up'', ''percent_down''}"
  shows "distinct (map alert_id (db_alerts s)) \<Longrightarrow> a \<in> set (db_alerts s) \<Longrightarrow>
         a \<in> set (db_alerts (run w n s)) \<and>
         (\<forall>ev\<in>set (events_since s (run w n s)). about ev = Some a \<longrightarrow> \<not> notifies_or_commits ev)"
proof (induction n arbitrary: s)
  case 0
  then show ?case by (simp add: events_since_def)
next
  case (Suc n)
  from unknown_kind_iteration [OF Suc.prems kind, of w]
  have step: "a \<in> set (db_alerts (iteration w s))"
    "\<forall>ev\<in>set (events_since s (iteration w s)). about ev = Some a \<longrightarrow> \<not> notifies_or_commits ev"
    by auto
  from Suc.prems(1) have "distinct (map alert_id (db_alerts (iteration w s)))"
    by (simp add: iteration_ids)
  from Suc.IH [OF this step(1)]
  have rest: "a \<in> set (db_alerts (run w n (iteration w s)))"
    "\<forall>ev\<in>set (events_since (iteration w s) (run w n (iteration w s))).
        about ev = Some a \<longrightarrow> \<not> notifies_or_commits ev"
    by auto
  from step(2) rest(2)
  have "\<forall>ev\<in>set (events_since s (run w (Suc n) s)). about ev = Some a \<longrightarrow> \<not> notifies_or_commits ev"
    by (simp only: events_since_run_Suc set_append Un_iff) blast
  with rest(1) show ?case by simp
qed

subsection \<open>Triggered alerts are notified, notified alerts are committed\<close>

lemma segment_triggered_sends:
  "segment w t b seg \<Longrightarrow> History a (Inr closes) \<in> set seg \<Longrightarrow> closes \<noteq> [] \<Longrightarrow>
   price_sample closes = Inr (p, c) \<Longrightarrow> evaluate a p c = (True, m) \<Longrightarrow>
   \<exists>r. SendMessage a (chat_id a) m r \<in> set seg"
  by (erule segment.cases) auto

lemma segments_triggered_sends:
  "segments w t as evs \<Longrightarrow> History a (Inr closes) \<in> set evs \<Longrightarrow> closes \<noteq> [] \<Longrightarrow>
   price_sample closes = Inr (p, c) \<Longrightarrow> evaluate a p c = (True, m) \<Longrightarrow>
   \<exists>r. SendMessage a (chat_id a) m r \<in> set evs"
proof (induction rule: segments.induct)
  case (none t)
  then show ?case by simp
next
  case (more t b seg as evs)
  from more.prems(1) have "History a (Inr closes) \<in> set seg \<or> History a (Inr closes) \<in> set evs"
    by simp
  then show ?case
  proof
    assume "History a (Inr closes) \<in> set seg"
    with more.hyps(1) more.prems(2-4) have "\<exists>r. SendMessage a (chat_id a) m r \<in> set seg"
      using segment_triggered_sends [of w t b seg a closes p c m] by blast
    then show ?thesis by auto
  next
    assume "History a (Inr closes) \<in> set evs"
    with more.IH more.prems(2-4) show ?thesis by auto
  qed
qed

lemma segment_sent_updates:
  "segment w t b seg \<Longrightarrow> SendMessage a ch m None \<in> set seg \<Longrightarrow>
   \<exists>ts r. UpdateOne a (alert_id a) ts r \<in> set seg"
  by (erule segment.cases) auto

lemma segments_sent_updates:
  "segments w t as evs \<Longrightarrow> SendMessage a ch m None \<in> set evs \<Longrightarrow>
   \<exists>ts r. UpdateOne a (alert_id a) ts r \<in> set evs"
proof (induction rule: segments.induct)
  case (none t)
  then show ?case by simp
next
  case (more t b seg as evs)
  from more.prems have "SendMessage a ch m None \<in> set seg \<or> SendMessage a ch m None \<in> set evs"
    by simp
  then show ?case
  proof
    assume "SendMessage a ch m None \<in> set seg"
    with more.hyps(1) have "\<exists>ts r. UpdateOne a (alert_id a) ts r \<in> set seg"
      using segment_sent_updates [of w t b seg a ch m] by blast
    then show ?thesis by auto
  next
    assume "SendMessage a ch m None \<in> set evs"
    with more.IH show ?thesis by auto
  qed
qed

lemma fetched_member: "a \<in> set (fetched evs) \<Longrightarrow> \<exists>r. History a r \<in> set evs"
  by (induction evs rule: fetched.induct) auto

subsection \<open>A previous close of zero\<close>

lemma price_sample_zero_prev_close:
  "1 < length closes \<Longrightarrow> closes ! (length closes - 2) = Finite 0 \<Longrightarrow>
   price_sample closes = Inl ZeroDivisionError"
  by (simp add: price_sample_def truediv_def)

lemma segment_zero_prev_close:
  "segment w t a seg \<Longrightarrow> History a (Inr closes) \<in> set seg \<Longrightarrow>
   price_sample closes = Inl ZeroDivisionError \<Longrightarrow> closes \<noteq> [] \<Longrightarrow>
   seg = [History a (Inr closes), LogErrorChecking a ZeroDivisionError]"
  by (erule segment.cases) auto

subsection \<open>Unfolding the examples\<close>

lemmas example_defs =
  thyao_above_def thyao_above_90_def bad_above_def zero_above_def muted_above_def
  thyao_crosses_def garan_fired_def example_alert_def
  quotes_world_def telegram_down_world_def telegram_recovers_world_def no_data_world_def
  no_bot_world_def store_down_world_def faulty_world_def example_world_def
  example_history_def example_state_def
  iteration_def cycle_body_def handle_alert_def check_alert_def find_active_def
  price_sample_single price_sample_80_100 price_sample_0_5
  evaluate_def events_since_def events_about_def now_def emit_def Let_def

section \<open>The evaluator\<close>

text \<open>
  C1. The trigger decision of lines 190-207 is the reference condition of the alert's
  kind, equality included: a \<^verbatim>\<open>price_above\<close> alert triggers iff the current price is at
  least the threshold, a \<^verbatim>\<open>price_below\<close> alert iff it is at most the threshold, a
  \<^verbatim>\<open>percent_up\<close> alert iff the change percent is at least the threshold, and a
  \<^verbatim>\<open>percent_down\<close> alert iff the change percent is at most minus the threshold.
\<close>

theorem evaluate_matches_reference:
  "(alert_type alert = ''price_above'' \<longrightarrow>
      fst (evaluate alert current_price change_percent) = (current_price \<ge> alert_value alert)) \<and>
   (alert_type alert = ''price_below'' \<longrightarrow>
      fst (evaluate alert current_price change_percent) = (current_price \<le> alert_value alert)) \<and>
   (alert_type alert = ''percent_up'' \<longrightarrow>
      fst (evaluate alert current_price change_percent) = (change_percent \<ge> alert_value alert)) \<and>
   (alert_type alert = ''percent_down'' \<longrightarrow>
      fst (evaluate alert current_price change_percent) = (change_percent \<le> - alert_value alert))"
  by (simp add: evaluate_def)

theorem evaluate_matches_reference_witness:
  "fst (evaluate (example_alert ''a1'' ''THYAO.IS'' ''price_above'' (Finite 100)) (Finite 100) (Finite 0)) \<and>
   \<not> fst (evaluate (example_alert ''a1'' ''THYAO.IS'' ''price_above'' (Finite 100)) (Finite 99) (Finite 0)) \<and>
   fst (evaluate (example_alert ''a1'' ''THYAO.IS'' ''price_below'' (Finite 100)) (Finite 100) (Finite 0)) \<and>
   \<not> fst (evaluate (example_alert ''a1'' ''THYAO.IS'' ''price_below'' (Finite 100)) (Finite 101) (Finite 0)) \<and>
   fst (evaluate (example_alert ''a1'' ''THYAO.IS'' ''percent_up'' (Finite 5)) (Finite 100) (Finite 5)) \<and>
   \<not> fst (evaluate (example_alert ''a1'' ''THYAO.IS'' ''percent_up'' (Finite 5)) (Finite 100) (Finite 4)) \<and>
   fst (evaluate (example_alert ''a1'' ''THYAO.IS'' ''percent_down'' (Finite 5)) (Finite 100) (Finite (- 5))) \<and>
   \<not> fst (evaluate (example_alert ''a1'' ''THYAO.IS'' ''percent_down'' (Finite 5)) (Finite 100) (Finite (- 4)))"
  using evaluate_matches_reference [of "example_alert ''a1'' ''THYAO.IS'' ''price_above'' (Finite 100)" "Finite 100" "Finite 0"]
        evaluate_matches_reference [of "example_alert ''a1'' ''THYAO.IS'' ''price_above'' (Finite 100)" "Finite 99" "Finite 0"]
        evaluate_matches_reference [of "example_alert ''a1'' ''THYAO.IS'' ''price_below'' (Finite 100)" "Finite 100" "Finite 0"]
        evaluate_matches_reference [of "example_alert ''a1'' ''THYAO.IS'' ''price_below'' (Finite 100)" "Finite 101" "Finite 0"]
        evaluate_matches_reference [of "example_alert ''a1'' ''THYAO.IS'' ''percent_up'' (Finite 5)" "Finite 100" "Finite 5"]
        evaluate_matches_reference [of "example_alert ''a1'' ''THYAO.IS'' ''percent_up'' (Finite 5)" "Finite 100" "Finite 4"]
        evaluate_matches_reference [of "example_alert ''a1'' ''THYAO.IS'' ''percent_down'' (Finite 5)" "Finite 100" "Finite (- 5)"]
        evaluate_matches_reference [of "example_alert ''a1'' ''THYAO.IS'' ''percent_down'' (Finite 5)" "Finite 100" "Finite (- 4)"]
  by (simp add: example_alert_def)

section \<open>The price sample\<close>

text \<open>
  C7, as the claim has it, at a previous close of exactly zero: line 188 divides by it,
  Python raises \<^verbatim>\<open>ZeroDivisionError\<close>, and no change percent is derived at all. And
  where a change percent is derived it is the value of the expression in doubles, not
  in exact arithmetic: for the closes 100 and 129 it is not 29.
\<close>

theorem change_percent_zero_prev_close_counterexample:
  "price_sample [Finite 0, Finite 1] = Inl ZeroDivisionError \<and>
   price_sample [Finite 100, Finite 129] \<noteq> Inr (Finite 129, Finite ((129 - 100) / 100 * 100))"
  by (simp add: price_sample_0_5 price_sample_100_129 price_sample_zero_prev_close)

text \<open>
  C7, amended. With a single history row (no previous close) the change percent is 0.
  With a previous close that is not zero it is the value of
  \<open>(current_price - prev_close) / prev_close * 100\<close> in Python's float arithmetic: for
  finite operands each of the three operations is rounded to the nearest double. With a
  previous close of zero the division raises \<^verbatim>\<open>ZeroDivisionError\<close> and there is no sample;
  the events of the pass for that alert are then the fetch and the error log line, and,
  ids being unique, its document stays in the store as it was and is in the next snapshot.
  Consequently, on a sample without previous close a \<^verbatim>\<open>percent_up\<close> alert with threshold 0
  triggers and one with threshold 1 does not.
\<close>

theorem change_percent_derivation:
  "(length closes = 1 \<longrightarrow> price_sample closes = Inr (last closes, Finite 0)) \<and>
   (length closes > 1 \<and> closes ! (length closes - 2) \<noteq> Finite 0 \<longrightarrow>
      price_sample closes =
        Inr (last closes,
             fmul (quotient (fsub (last closes) (closes ! (length closes - 2)))
                     (closes ! (length closes - 2)))
               (Finite 100))) \<and>
   (length closes > 1 \<and> last closes = Finite cur \<and> closes ! (length closes - 2) = Finite prev \<and>
    prev \<noteq> 0 \<and> rnd (cur - prev) = Finite diff \<and> rnd (diff / prev) = Finite ratio \<longrightarrow>
      price_sample closes = Inr (Finite cur, rnd (ratio * 100))) \<and>
   (length closes > 1 \<and> closes ! (length closes - 2) = Finite 0 \<longrightarrow>
      price_sample closes = Inl ZeroDivisionError) \<and>
   (distinct (map alert_id (db_alerts s)) \<and>
    History a (Inr closes) \<in> set (events_since s (iteration w s)) \<and>
    length closes > 1 \<and> closes ! (length closes - 2) = Finite 0 \<longrightarrow>
      events_about a (events_since s (iteration w s)) =
        [History a (Inr closes), LogErrorChecking a ZeroDivisionError] \<and>
      a \<in> set (db_alerts (iteration w s)) \<and> is_active a \<and>
      a \<in> set (find_active (db_alerts (iteration w s)))) \<and>
   (length closes = 1 \<and> alert_type alert = ''percent_up'' \<and> alert_value alert = Finite 0 \<longrightarrow>
      (\<exists>p c. price_sample closes = Inr (p, c) \<and> fst (evaluate alert p c))) \<and>
   (length closes = 1 \<and> alert_type alert = ''percent_up'' \<and> alert_value alert = Finite 1 \<longrightarrow>
      (\<exists>p c. price_sample closes = Inr (p, c) \<and> \<not> fst (evaluate alert p c)))"
proof -
  have single: "length closes = 1 \<longrightarrow> price_sample closes = Inr (last closes, Finite 0)"
    by (simp add: price_sample_def)
  have formula: "length closes > 1 \<and> closes ! (length closes - 2) \<noteq> Finite 0 \<longrightarrow>
      price_sample closes =
        Inr (last closes,
             fmul (quotient (fsub (last closes) (closes ! (length closes - 2)))
                     (closes ! (length closes - 2)))
               (Finite 100))"
    by (simp add: price_sample_def truediv_def Let_def)
  have rounded: "length closes > 1 \<and> last closes = Finite cur \<and>
    closes ! (length closes - 2) = Finite prev \<and>
    prev \<noteq> 0 \<and> rnd (cur - prev) = Finite diff \<and> rnd (diff / prev) = Finite ratio \<longrightarrow>
      price_sample closes = Inr (Finite cur, rnd (ratio * 100))"
    by (simp add: price_sample_def truediv_def Let_def)
  have zero: "length closes > 1 \<and> closes ! (length closes - 2) = Finite 0 \<longrightarrow>
      price_sample closes = Inl ZeroDivisionError"
    by (simp add: price_sample_zero_prev_close)
  have skipped: "events_about a (events_since s (iteration w s)) =
        [History a (Inr closes), LogErrorChecking a ZeroDivisionError] \<and>
      a \<in> set (db_alerts (iteration w s)) \<and> is_active a \<and>
      a \<in> set (find_active (db_alerts (iteration w s)))"
    if dist: "distinct (map alert_id (db_alerts s))"
      and hist: "History a (Inr closes) \<in> set (events_since s (iteration w s))"
      and len: "length closes > 1" and prev: "closes ! (length closes - 2) = Finite 0"
  proof -
    let ?evs = "events_since s (iteration w s)"
    have about: "about (History a (Inr closes)) = Some a" by simp
    from iteration_alert_events [OF dist hist about]
    obtain t where seg: "segment w t a (events_about a ?evs)" by blast
    from hist about have "History a (Inr closes) \<in> set (events_about a ?evs)"
      by (rule in_events_about)
    moreover from len prev have "price_sample closes = Inl ZeroDivisionError"
      by (rule price_sample_zero_prev_close)
    moreover from len have "closes \<noteq> []" by auto
    ultimately have shape: "events_about a ?evs =
        [History a (Inr closes), LogErrorChecking a ZeroDivisionError]"
      using seg by (intro segment_zero_prev_close)
    then have "commits (events_about a ?evs) = []" by simp
    from unfired_alert_stays [OF dist hist about this] shape show ?thesis by blast
  qed
  have up0: "length closes = 1 \<and> alert_type alert = ''percent_up'' \<and> alert_value alert = Finite 0 \<longrightarrow>
      (\<exists>p c. price_sample closes = Inr (p, c) \<and> fst (evaluate alert p c))"
    by (simp add: price_sample_def evaluate_def)
  have up1: "length closes = 1 \<and> alert_type alert = ''percent_up'' \<and> alert_value alert = Finite 1 \<longrightarrow>
      (\<exists>p c. price_sample closes = Inr (p, c) \<and> \<not> fst (evaluate alert p c))"
    by (simp add: price_sample_def evaluate_def)
  from single formula rounded zero skipped up0 up1 show ?thesis by blast
qed

theorem change_percent_derivation_witness:
  "price_sample [Finite 101] = Inr (Finite 101, Finite 0) \<and>
   price_sample [Finite 80, Finite 100] = Inr (Finite 100, Finite 25) \<and>
   price_sample [Finite 100, Finite 129] =
     Inr (Finite 129, Finite (8162774324609023 / 281474976710656)) \<and>
   price_sample [Finite 95, Finite 101] =
     Inr (Finite 101, Finite (3555473390029339 / 562949953421312)) \<and>
   price_sample [Finite (2 ^ 1023), Finite (- (2 ^ 1023))] =
     Inr (Finite (- (2 ^ 1023)), MinusInf) \<and>
   price_sample [Finite 100, NaN] = Inr (NaN, NaN) \<and>
   price_sample [Finite 0, Finite 5] = Inl ZeroDivisionError \<and>
   events_about zero_above
     (events_since (example_state [zero_above]) (iteration quotes_world (example_state [zero_above]))) =
     [History zero_above (Inr [Finite 0, Finite 5]), LogErrorChecking zero_above ZeroDivisionError] \<and>
   find_active (db_alerts (iteration quotes_world (example_state [zero_above]))) = [zero_above] \<and>
   fst (evaluate (example_alert ''a1'' ''THYAO.IS'' ''percent_up'' (Finite 0)) (Finite 101) (Finite 0)) \<and>
   \<not> fst (evaluate (example_alert ''a1'' ''THYAO.IS'' ''percent_up'' (Finite 1)) (Finite 101) (Finite 0))"
  using change_percent_derivation
      [of "[Finite 101]" 101 0 0 0 "example_state [zero_above]" zero_above quotes_world
          "example_alert ''a1'' ''THYAO.IS'' ''percent_up'' (Finite 0)"]
    change_percent_derivation
      [of "[Finite 101]" 101 0 0 0 "example_state [zero_above]" zero_above quotes_world
          "example_alert ''a1'' ''THYAO.IS'' ''percent_up'' (Finite 1)"]
    change_percent_derivation
      [of "[Finite 80, Finite 100]" 100 80 20 "1 / 4" "example_state [zero_above]" zero_above
          quotes_world "example_alert ''a1'' ''THYAO.IS'' ''percent_up'' (Finite 0)"]
    change_percent_derivation
      [of "[Finite 100, Finite 129]" 129 100 29 "5224175567749775 / 18014398509481984"
          "example_state [zero_above]" zero_above quotes_world
          "example_alert ''a1'' ''THYAO.IS'' ''percent_up'' (Finite 0)"]
    change_percent_derivation
      [of "[Finite 0, Finite 5]" 5 0 0 0 "example_state [zero_above]" zero_above quotes_world
          "example_alert ''a1'' ''THYAO.IS'' ''percent_up'' (Finite 0)"]
  by (simp add: example_defs rnd_20 rnd_quarter rnd_25 rnd_29 rnd_29_100 rnd_29_back
        price_sample_95_101 price_sample_overflow price_sample_nan del: power_numeral)

section \<open>The loop\<close>

text \<open>
  C9. Without a bot (\<^verbatim>\<open>telegram_bot\<close> is \<^verbatim>\<open>None\<close>) a pass of the loop only sleeps:
  its single event is the sleep of 30 seconds, so there is no snapshot read, no quote
  fetch, no evaluation and no notification, and the store is left as it was; the same
  holds for any number of passes.
\<close>

theorem idle_without_notification_channel:
  "\<not> telegram_bot w \<Longrightarrow>
   events_since s (iteration w s) = [Sleep 30] \<and>
   db_alerts (iteration w s) = db_alerts s \<and>
   events_since s (run w n s) = replicate n (Sleep 30) \<and>
   db_alerts (run w n s) = db_alerts s"
  using run_idle [of w n s] by (simp add: iteration_idle events_since_def)

theorem idle_without_notification_channel_witness:
  "events_since (example_state [thyao_above])
     (run no_bot_world (Suc (Suc 0)) (example_state [thyao_above])) = [Sleep 30, Sleep 30] \<and>
   db_alerts (run no_bot_world (Suc (Suc 0)) (example_state [thyao_above])) = [thyao_above]"
  using idle_without_notification_channel
    [of no_bot_world "example_state [thyao_above]" "Suc (Suc 0)"]
  by (simp add: no_bot_world_def example_world_def example_state_def)

text \<open>
  C8. Observed after any number \<open>n\<close> of passes the loop is still running, neither returned
  nor left by an exception, in the state that \<open>n\<close> passes produce. When the snapshot read
  raises, the exception is caught by the outer handler: the pass consists of the failed
  read, the error log line and the sleep of 30 seconds, and the store is unchanged. Every
  pass ends with that sleep, and after \<open>n\<close> passes exactly \<open>n\<close> sleeps have happened,
  whatever failed on the way.
\<close>

theorem cycle_errors_are_absorbed:
  "check_alerts_background n w s = Running (run w n s) \<and>
   (telegram_bot w \<and> find_raises w (now s) = Some e \<longrightarrow>
      events_since s (iteration w s) = [Find (Some e), LogErrorBackground e, Sleep 30] \<and>
      db_alerts (iteration w s) = db_alerts s) \<and>
   last (events_since s (iteration w s)) = Sleep 30 \<and>
   count_list (events_since s (run w n s)) (Sleep 30) = n"
proof -
  have "last (events_since s (iteration w s)) = Sleep 30"
    using iteration_events [of w s] cycle_events_one_sleep by blast
  moreover have "telegram_bot w \<and> find_raises w (now s) = Some e \<longrightarrow>
      events_since s (iteration w s) = [Find (Some e), LogErrorBackground e, Sleep 30] \<and>
      db_alerts (iteration w s) = db_alerts s"
    by (simp add: iteration_find_raised events_since_def)
  ultimately show ?thesis
    using loop_runs_passes [of n w s] run_sleeps [of s w n] by blast
qed

theorem cycle_errors_are_absorbed_witness:
  "check_alerts_background (Suc (Suc 0)) store_down_world (example_state [thyao_above]) =
     Running
       \<lparr>db_alerts = [thyao_above],
        trace =
          [Find (Some (OtherError ''store down'')), LogErrorBackground (OtherError ''store down''),
           Sleep 30,
           Find (Some (OtherError ''store down'')), LogErrorBackground (OtherError ''store down''),
           Sleep 30]\<rparr> \<and>
   events_since (example_state [thyao_above])
     (iteration store_down_world (example_state [thyao_above])) =
     [Find (Some (OtherError ''store down'')), LogErrorBackground (OtherError ''store down''),
      Sleep 30] \<and>
   db_alerts (iteration store_down_world (example_state [thyao_above])) = [thyao_above]"
  using cycle_errors_are_absorbed
    [of "Suc (Suc 0)" store_down_world "example_state [thyao_above]" "OtherError ''store down''"]
  by (simp add: example_defs)

text \<open>
  C5. In a pass that reads its snapshot, the events between the read and the sleep are
  the complete handling of every alert of the snapshot, one after the other in order,
  each decided by the answers of the world at its own time, whatever the outcome of the
  alerts before it: fetch error, division error, delivery error or commit error. So the
  alerts fetched are exactly those of the snapshot, every fetched alert whose condition
  holds on its sample is notified, every delivered notification is followed by its
  update, no failure reaches the outer handler, and the pass ends with its sleep. In the
  example the first four alerts fail in the four ways and the fifth fires.
\<close>

theorem failures_do_not_abort_the_cycle:
  "telegram_bot w \<and> find_raises w (now s) = None \<longrightarrow>
     (\<exists>evs. events_since s (iteration w s) = Find None # evs @ [Sleep 30] \<and>
            segments w (Suc (now s)) (find_active (db_alerts s)) evs) \<and>
     fetched (events_since s (iteration w s)) = find_active (db_alerts s) \<and>
     (History a (Inr closes) \<in> set (events_since s (iteration w s)) \<and> closes \<noteq> [] \<and>
      price_sample closes = Inr (p, c) \<and> evaluate a p c = (True, m) \<longrightarrow>
        (\<exists>r. SendMessage a (chat_id a) m r \<in> set (events_since s (iteration w s)))) \<and>
     (SendMessage a ch m None \<in> set (events_since s (iteration w s)) \<longrightarrow>
        (\<exists>ts r. UpdateOne a (alert_id a) ts r \<in> set (events_since s (iteration w s)))) \<and>
     (\<forall>e. LogErrorBackground e \<notin> set (events_since s (iteration w s))) \<and>
     last (events_since s (iteration w s)) = Sleep 30"
proof (intro impI, elim conjE)
  assume bot: "telegram_bot w" and ok: "find_raises w (now s) = None"
  from iteration_processed [OF bot ok] obtain evs where
    evs: "segments w (Suc (now s)) (find_active (db_alerts s)) evs"
      "events_since s (iteration w s) = Find None # evs @ [Sleep 30]"
    by blast
  from evs(1) have fetch: "fetched evs = find_active (db_alerts s)" by (rule segments_fetched)
  from evs(1) have quiet: "\<forall>e. LogErrorBackground e \<notin> set evs"
    by (simp add: segments_no_background_error)
  have sends: "\<exists>r. SendMessage a (chat_id a) m r \<in> set evs"
    if "History a (Inr closes) \<in> set evs" "closes \<noteq> []"
      "price_sample closes = Inr (p, c)" "evaluate a p c = (True, m)"
    using evs(1) that by (rule segments_triggered_sends)
  have updates: "\<exists>ts r. UpdateOne a (alert_id a) ts r \<in> set evs"
    if "SendMessage a ch m None \<in> set evs"
    using evs(1) that by (rule segments_sent_updates)
  have shape: "\<exists>evs. events_since s (iteration w s) = Find None # evs @ [Sleep 30] \<and>
            segments w (Suc (now s)) (find_active (db_alerts s)) evs"
    using evs by blast
  from fetch quiet sends updates
  have rest: "fetched (events_since s (iteration w s)) = find_active (db_alerts s) \<and>
     (History a (Inr closes) \<in> set (events_since s (iteration w s)) \<and> closes \<noteq> [] \<and>
      price_sample closes = Inr (p, c) \<and> evaluate a p c = (True, m) \<longrightarrow>
        (\<exists>r. SendMessage a (chat_id a) m r \<in> set (events_since s (iteration w s)))) \<and>
     (SendMessage a ch m None \<in> set (events_since s (iteration w s)) \<longrightarrow>
        (\<exists>ts r. UpdateOne a (alert_id a) ts r \<in> set (events_since s (iteration w s)))) \<and>
     (\<forall>e. LogErrorBackground e \<notin> set (events_since s (iteration w s))) \<and>
     last (events_since s (iteration w s)) = Sleep 30"
    unfolding evs(2) by (auto simp: fetched_append)
  from shape rest show "(\<exists>evs. events_since s (iteration w s) = Find None # evs @ [Sleep 30] \<and>
            segments w (Suc (now s)) (find_active (db_alerts s)) evs) \<and>
     fetched (events_since s (iteration w s)) = find_active (db_alerts s) \<and>
     (History a (Inr closes) \<in> set (events_since s (iteration w s)) \<and> closes \<noteq> [] \<and>
      price_sample closes = Inr (p, c) \<and> evaluate a p c = (True, m) \<longrightarrow>
        (\<exists>r. SendMessage a (chat_id a) m r \<in> set (events_since s (iteration w s)))) \<and>
     (SendMessage a ch m None \<in> set (events_since s (iteration w s)) \<longrightarrow>
        (\<exists>ts r. UpdateOne a (alert_id a) ts r \<in> set (events_since s (iteration w s)))) \<and>
     (\<forall>e. LogErrorBackground e \<notin> set (events_since s (iteration w s))) \<and>
     last (events_since s (iteration w s)) = Sleep 30"
    by (rule conjI)
qed

theorem failures_do_not_abort_the_cycle_witness:
  "events_since
     (example_state [bad_above, zero_above, muted_above, thyao_above_90, thyao_above])
     (iteration faulty_world
        (example_state [bad_above, zero_above, muted_above, thyao_above_90, thyao_above])) =
     [Find None,
      History bad_above (Inl (OtherError ''timeout'')),
      LogErrorChecking bad_above (OtherError ''timeout''),
      History zero_above (Inr [Finite 0, Finite 5]),
      LogErrorChecking zero_above ZeroDivisionError,
      History muted_above (Inr [Finite 80, Finite 100]),
      SendMessage muted_above ''13''
        (Rendered PriceAboveText ''THYAO.IS'' (Finite 100) (Finite 25) (Finite 100))
        (Some (TelegramError ''blocked'')),
      LogErrorChecking muted_above (TelegramError ''blocked''),
      History thyao_above_90 (Inr [Finite 80, Finite 100]),
      SendMessage thyao_above_90 ''42''
        (Rendered PriceAboveText ''THYAO.IS'' (Finite 100) (Finite 25) (Finite 90)) None,
      UpdateOne thyao_above_90 ''a6'' ''2024-01-02T00:00:00+00:00''
        (Some (OtherError ''write failed'')),
      LogErrorChecking thyao_above_90 (OtherError ''write failed''),
      History thyao_above (Inr [Finite 80, Finite 100]),
      SendMessage thyao_above ''42''
        (Rendered PriceAboveText ''THYAO.IS'' (Finite 100) (Finite 25) (Finite 100)) None,
      UpdateOne thyao_above ''a2'' ''2024-01-02T00:00:00+00:00'' None,
      LogTriggered thyao_above,
      Sleep 30] \<and>
   db_alerts (iteration faulty_world
        (example_state [bad_above, zero_above, muted_above, thyao_above_90, thyao_above])) =
     [bad_above, zero_above, muted_above, thyao_above_90,
      thyao_above\<lparr>is_active := False, triggered_at := Some ''2024-01-02T00:00:00+00:00''\<rparr>]"
  using failures_do_not_abort_the_cycle
    [of faulty_world
        "example_state [bad_above, zero_above, muted_above, thyao_above_90, thyao_above]"
        thyao_above "[Finite 80, Finite 100]" "Finite 100" "Finite 25"
        "Rendered PriceAboveText ''THYAO.IS'' (Finite 100) (Finite 25) (Finite 100)" "''42''"]
  by (simp add: example_defs)

text \<open>
  C4. In the trace of any number of passes, every update of the store (the commit of
  \<open>is_active = False\<close> and \<open>triggered_at\<close>) made for an alert comes directly after a
  \<^verbatim>\<open>send_message\<close> for the same alert that returned without raising: the notification of an
  alert has completed, in the same pass, before its commit starts.
\<close>

theorem commit_only_after_successful_notify:
  "k < length (events_since s (run w n s)) \<Longrightarrow>
   events_since s (run w n s) ! k = UpdateOne a i ts r \<Longrightarrow>
   0 < k \<and> i = alert_id a \<and>
   (\<exists>m. events_since s (run w n s) ! (k - 1) = SendMessage a (chat_id a) m None)"
  using notify_first_run [of s w n] unfolding notify_first_def by blast

theorem commit_only_after_successful_notify_witness:
  "events_since (example_state [bad_above, thyao_above])
     (run quotes_world (Suc 0) (example_state [bad_above, thyao_above])) ! 5 =
     UpdateOne thyao_above ''a2'' ''2024-01-02T00:00:00+00:00'' None \<and>
   events_since (example_state [bad_above, thyao_above])
     (run quotes_world (Suc 0) (example_state [bad_above, thyao_above])) ! 4 =
     SendMessage thyao_above ''42'' (Rendered PriceAboveText ''THYAO.IS'' (Finite 100) (Finite 25) (Finite 100)) None"
  using commit_only_after_successful_notify
    [of 5 "example_state [bad_above, thyao_above]" quotes_world "Suc 0" thyao_above "''a2''"
        "''2024-01-02T00:00:00+00:00''" None]
  by (simp add: example_defs)

text \<open>
  C3. After any number of passes every document is either as it was or the same document
  with \<open>is_active = False\<close> and \<open>triggered_at\<close> set together. Hence documents in which
  \<open>triggered_at\<close> is set exactly when \<open>is_active\<close> is false stay so, an inactive document
  is never made active again, and, ids being unique, once the commit for an id has been
  made no later snapshot of active alerts contains an alert with that id.
\<close>

theorem fired_alerts_are_terminal:
  "list_all2 fired_or_same (db_alerts s) (db_alerts (run w n s)) \<and>
   ((\<forall>d\<in>set (db_alerts s). coherent d) \<longrightarrow> (\<forall>d\<in>set (db_alerts (run w n s)). coherent d)) \<and>
   (\<forall>k<length (db_alerts s).
      \<not> is_active (db_alerts s ! k) \<longrightarrow> \<not> is_active (db_alerts (run w n s) ! k)) \<and>
   (distinct (map alert_id (db_alerts s)) \<and>
    UpdateOne a i ts None \<in> set (events_since s (run w m s)) \<longrightarrow>
      (\<forall>b\<in>set (find_active (db_alerts (run w (m + n) s))). alert_id b \<noteq> i))"
proof -
  have rel: "list_all2 fired_or_same (db_alerts s) (db_alerts (run w n s))"
    by (rule run_fired_or_same)
  have coh: "(\<forall>d\<in>set (db_alerts s). coherent d) \<longrightarrow> (\<forall>d\<in>set (db_alerts (run w n s)). coherent d)"
    using list_all2_member [OF rel] fired_or_same_coherent by blast
  have stay: "\<forall>k<length (db_alerts s).
      \<not> is_active (db_alerts s ! k) \<longrightarrow> \<not> is_active (db_alerts (run w n s) ! k)"
    using list_all2_nthD [OF rel] fired_or_same_inactive by blast
  have excl: "distinct (map alert_id (db_alerts s)) \<and>
    UpdateOne a i ts None \<in> set (events_since s (run w m s)) \<longrightarrow>
      (\<forall>b\<in>set (find_active (db_alerts (run w (m + n) s))). alert_id b \<noteq> i)"
  proof (intro impI ballI, elim conjE)
    fix b
    assume "distinct (map alert_id (db_alerts s))"
      and "UpdateOne a i ts None \<in> set (events_since s (run w m s))"
      and b: "b \<in> set (find_active (db_alerts (run w (m + n) s)))"
    then have "inactive_id i (db_alerts (run w m s))" by (simp add: run_fires)
    with run_fired_or_same [of "run w m s" w n]
    have "inactive_id i (db_alerts (run w (m + n) s))"
      by (simp add: run_add inactive_id_preserved)
    with find_active_subset [OF b] show "alert_id b \<noteq> i"
      unfolding inactive_id_def list_all_iff by blast
  qed
  from rel coh stay excl show ?thesis by blast
qed

theorem fired_alerts_are_terminal_witness:
  "db_alerts (run quotes_world (Suc (Suc 0)) (example_state [garan_fired, thyao_above])) =
     [garan_fired,
      thyao_above\<lparr>is_active := False, triggered_at := Some ''2024-01-02T00:00:00+00:00''\<rparr>] \<and>
   list_all coherent (db_alerts (run quotes_world (Suc 0) (example_state [garan_fired, thyao_above]))) \<and>
   \<not> is_active (db_alerts (run quotes_world (Suc 0) (example_state [garan_fired, thyao_above])) ! 0) \<and>
   find_active (db_alerts (run quotes_world (Suc (Suc 0)) (example_state [garan_fired, thyao_above])))
     = []"
  using fired_alerts_are_terminal
    [of "example_state [garan_fired, thyao_above]" quotes_world "Suc 0" thyao_above "''a2''"
        "''2024-01-02T00:00:00+00:00''" "Suc 0"]
  by (simp add: example_defs coherent_def)

text \<open>
  C2. Ids being unique, when \<^verbatim>\<open>send_message\<close> raises for an alert in a pass, the events of
  that pass for the alert are its fetch, the failed send and the error log line: there is
  no update of the store. The document of the alert is in the store after the pass exactly
  as it was in the snapshot (active, \<open>triggered_at\<close> untouched), and it is in the snapshot
  of active alerts taken from the store after the pass. When the snapshot read of the next
  pass succeeds, that pass handles the alert again in full: it fetches it, its events for
  the alert are one of the seven complete ways through the handler, decided by the answers
  of the world at that time, and if the condition holds on the new sample the notification
  is sent again.
\<close>

theorem failed_delivery_is_not_committed:
  "distinct (map alert_id (db_alerts s)) \<Longrightarrow>
   SendMessage a c m (Some e) \<in> set (events_since s (iteration w s)) \<Longrightarrow>
   (\<exists>closes. events_about a (events_since s (iteration w s)) =
      [History a (Inr closes), SendMessage a c m (Some e), LogErrorChecking a e]) \<and>
   a \<in> set (db_alerts s) \<and> is_active a \<and> a \<in> set (db_alerts (iteration w s)) \<and>
   a \<in> set (find_active (db_alerts (iteration w s))) \<and>
   (find_raises w (now (iteration w s)) = None \<longrightarrow>
      a \<in> set (fetched (events_since (iteration w s) (iteration w (iteration w s)))) \<and>
      (\<exists>t. segment w t a
         (events_about a (events_since (iteration w s) (iteration w (iteration w s))))) \<and>
      (History a (Inr closes') \<in> set (events_since (iteration w s) (iteration w (iteration w s))) \<and>
       closes' \<noteq> [] \<and> price_sample closes' = Inr (p', c') \<and> evaluate a p' c' = (True, m') \<longrightarrow>
         (\<exists>r. SendMessage a (chat_id a) m' r
              \<in> set (events_since (iteration w s) (iteration w (iteration w s))))))"
proof -
  let ?evs = "events_since s (iteration w s)"
  let ?s' = "iteration w s"
  let ?next = "events_since ?s' (iteration w ?s')"
  assume dist: "distinct (map alert_id (db_alerts s))"
    and sent: "SendMessage a c m (Some e) \<in> set ?evs"
  have about: "about (SendMessage a c m (Some e)) = Some a" by simp
  from iteration_alert_events [OF dist sent about]
  obtain t where bot: "telegram_bot w" and seg: "segment w t a (events_about a ?evs)" by blast
  from sent about have "SendMessage a c m (Some e) \<in> set (events_about a ?evs)"
    by (rule in_events_about)
  with seg obtain closes where shape:
    "events_about a ?evs = [History a (Inr closes), SendMessage a c m (Some e), LogErrorChecking a e]"
    using segment_send_failed by blast
  then have "commits (events_about a ?evs) = []" by simp
  from unfired_alert_stays [OF dist sent about this]
  have stays: "a \<in> set (db_alerts s)" "is_active a" "a \<in> set (db_alerts ?s')"
    "a \<in> set (find_active (db_alerts ?s'))"
    "find_raises w (now ?s') = None \<longrightarrow> a \<in> set (fetched ?next)"
    by auto
  have again: "a \<in> set (fetched ?next) \<and>
      (\<exists>t. segment w t a (events_about a ?next)) \<and>
      (History a (Inr closes') \<in> set ?next \<and>
       closes' \<noteq> [] \<and> price_sample closes' = Inr (p', c') \<and> evaluate a p' c' = (True, m') \<longrightarrow>
         (\<exists>r. SendMessage a (chat_id a) m' r \<in> set ?next))"
    if ok: "find_raises w (now ?s') = None"
  proof -
    from stays(5) ok have fetch: "a \<in> set (fetched ?next)" by simp
    then obtain r where hist: "History a r \<in> set ?next" using fetched_member by blast
    have about': "about (History a r) = Some a" by simp
    from dist have dist': "distinct (map alert_id (db_alerts ?s'))" by (simp add: iteration_ids)
    from iteration_alert_events [OF dist' hist about']
    have handled: "\<exists>t. segment w t a (events_about a ?next)" by blast
    from iteration_processed [OF bot ok] obtain evs' where
      evs': "segments w (Suc (now ?s')) (find_active (db_alerts ?s')) evs'"
        "?next = Find None # evs' @ [Sleep 30]"
      by blast
    have "\<exists>r. SendMessage a (chat_id a) m' r \<in> set ?next"
      if trig: "History a (Inr closes') \<in> set ?next" "closes' \<noteq> []"
        "price_sample closes' = Inr (p', c')" "evaluate a p' c' = (True, m')"
    proof -
      from trig(1) evs'(2) have "History a (Inr closes') \<in> set evs'" by simp
      with evs'(1) have "\<exists>r. SendMessage a (chat_id a) m' r \<in> set evs'"
        using trig(2-4) by (rule segments_triggered_sends)
      with evs'(2) show ?thesis by auto
    qed
    with fetch handled show ?thesis by blast
  qed
  from shape stays(1-4) again show ?thesis by blast
qed

theorem failed_delivery_is_not_committed_witness:
  "events_about thyao_above
     (events_since (example_state [thyao_above])
        (iteration telegram_recovers_world (example_state [thyao_above]))) =
     [History thyao_above (Inr [Finite 80, Finite 100]),
      SendMessage thyao_above ''42''
        (Rendered PriceAboveText ''THYAO.IS'' (Finite 100) (Finite 25) (Finite 100))
        (Some (TelegramError ''timed out'')),
      LogErrorChecking thyao_above (TelegramError ''timed out'')] \<and>
   db_alerts (iteration telegram_recovers_world (example_state [thyao_above])) = [thyao_above] \<and>
   find_active (db_alerts (iteration telegram_recovers_world (example_state [thyao_above])))
     = [thyao_above] \<and>
   events_since (iteration telegram_recovers_world (example_state [thyao_above]))
      (iteration telegram_recovers_world
         (iteration telegram_recovers_world (example_state [thyao_above]))) =
     [Find None,
      History thyao_above (Inr [Finite 80, Finite 100]),
      SendMessage thyao_above ''42''
        (Rendered PriceAboveText ''THYAO.IS'' (Finite 100) (Finite 25) (Finite 100)) None,
      UpdateOne thyao_above ''a2'' ''2024-01-02T00:00:00+00:00'' None,
      LogTriggered thyao_above,
      Sleep 30]"
  using failed_delivery_is_not_committed
    [of "example_state [thyao_above]" thyao_above "''42''"
        "Rendered PriceAboveText ''THYAO.IS'' (Finite 100) (Finite 25) (Finite 100)"
        "TelegramError ''timed out''" telegram_recovers_world
        "[Finite 80, Finite 100]" "Finite 100" "Finite 25"
        "Rendered PriceAboveText ''THYAO.IS'' (Finite 100) (Finite 25) (Finite 100)"]
  by (simp add: example_defs)

text \<open>
  C6, as the claim has it, on an empty history: the guard of lines 180-181 leaves the pass
  of the \<^verbatim>\<open>for\<close> loop with \<^verbatim>\<open>continue\<close>, and nothing is logged. The whole pass is the
  snapshot read, the fetch and the sleep.
\<close>

theorem empty_history_is_not_logged_counterexample:
  "events_since (example_state [thyao_above])
     (iteration no_data_world (example_state [thyao_above])) =
   [Find None, History thyao_above (Inr []), Sleep 30]"
  by (simp add: example_defs)

text \<open>
  C6, amended. Ids being unique, when the fetch for an alert raises or returns an empty
  history, the events of the pass for that alert are the single fetch, followed by the
  error log line when the fetch raised and by nothing when the history was empty: no
  second fetch, no notification, no update. The document of the alert is in the store
  after the pass as it was, active, it is in the snapshot taken from that store, and the
  next pass, when its snapshot read succeeds, fetches it again.
\<close>

theorem failed_fetch_skips_alert:
  "distinct (map alert_id (db_alerts s)) \<Longrightarrow>
   History a r \<in> set (events_since s (iteration w s)) \<Longrightarrow>
   r = Inr [] \<or> r = Inl e \<Longrightarrow>
   events_about a (events_since s (iteration w s)) =
     History a r # (case r of Inl x \<Rightarrow> [LogErrorChecking a x] | Inr closes \<Rightarrow> []) \<and>
   a \<in> set (db_alerts s) \<and> is_active a \<and> a \<in> set (db_alerts (iteration w s)) \<and>
   a \<in> set (find_active (db_alerts (iteration w s))) \<and>
   (find_raises w (now (iteration w s)) = None \<longrightarrow>
      a \<in> set (fetched (events_since (iteration w s) (iteration w (iteration w s)))))"
proof -
  let ?evs = "events_since s (iteration w s)"
  assume dist: "distinct (map alert_id (db_alerts s))"
    and hist: "History a r \<in> set ?evs"
    and failed: "r = Inr [] \<or> r = Inl e"
  have about: "about (History a r) = Some a" by simp
  from iteration_alert_events [OF dist hist about]
  obtain t where seg: "segment w t a (events_about a ?evs)" by blast
  from hist about have "History a r \<in> set (events_about a ?evs)"
    by (rule in_events_about)
  with seg failed have shape: "events_about a ?evs =
      History a r # (case r of Inl x \<Rightarrow> [LogErrorChecking a x] | Inr closes \<Rightarrow> [])"
    by (intro segment_fetch_failed)
  then have "commits (events_about a ?evs) = []" by (simp split: sum.splits)
  from unfired_alert_stays [OF dist hist about this] shape show ?thesis by blast
qed

theorem failed_fetch_skips_alert_witness:
  "events_about bad_above
     (events_since (example_state [bad_above]) (iteration quotes_world (example_state [bad_above]))) =
     [History bad_above (Inl (OtherError ''timeout'')),
      LogErrorChecking bad_above (OtherError ''timeout'')] \<and>
   find_active (db_alerts (iteration quotes_world (example_state [bad_above]))) = [bad_above] \<and>
   fetched (events_since (iteration quotes_world (example_state [bad_above]))
      (iteration quotes_world (iteration quotes_world (example_state [bad_above]))))
     = [bad_above] \<and>
   events_about thyao_above
     (events_since (example_state [thyao_above]) (iteration no_data_world (example_state [thyao_above]))) =
     [History thyao_above (Inr [])] \<and>
   find_active (db_alerts (iteration no_data_world (example_state [thyao_above]))) = [thyao_above] \<and>
   fetched (events_since (iteration no_data_world (example_state [thyao_above]))
      (iteration no_data_world (iteration no_data_world (example_state [thyao_above]))))
     = [thyao_above]"
  using failed_fetch_skips_alert
    [of "example_state [bad_above]" bad_above "Inl (OtherError ''timeout'')" quotes_world
        "OtherError ''timeout''"]
    failed_fetch_skips_alert
    [of "example_state [thyao_above]" thyao_above "Inr []" no_data_world "OtherError ''timeout''"]
  by (simp add: example_defs)

text \<open>
  C10. \<open>create_alert\<close> stores whatever string it is given as \<open>alert_type\<close>, in an active
  document. For an alert whose \<open>alert_type\<close> is none of \<^verbatim>\<open>price_above\<close>, \<^verbatim>\<open>price_below\<close>,
  \<^verbatim>\<open>percent_up\<close>, \<^verbatim>\<open>percent_down\<close>, the evaluation is \<open>(False, Empty)\<close> on every sample;
  and, ids being unique, after any number of passes the document is still in the store as
  it was, active, and the trace has no notification and no update for it.
\<close>

theorem unknown_alert_type_never_triggers:
  "alert_type (fst (create_alert new_id created alert_input docs)) = ac_alert_type alert_input \<and>
   is_active (fst (create_alert new_id created alert_input docs)) \<and>
   snd (create_alert new_id created alert_input docs) =
     docs @ [fst (create_alert new_id created alert_input docs)] \<and>
   (alert_type a \<notin> {''price_above'', ''price_below'', ''percent_up'', ''percent_down''} \<longrightarrow>
      evaluate a current_price change_percent = (False, Empty) \<and>
      (distinct (map alert_id (db_alerts s)) \<and> a \<in> set (db_alerts s) \<and> is_active a \<longrightarrow>
         a \<in> set (db_alerts (run w n s)) \<and>
         (\<forall>c m r. SendMessage a c m r \<notin> set (events_since s (run w n s))) \<and>
         (\<forall>i ts r. UpdateOne a i ts r \<notin> set (events_since s (run w n s)))))"
proof -
  have create: "alert_type (fst (create_alert new_id created alert_input docs)) = ac_alert_type alert_input \<and>
   is_active (fst (create_alert new_id created alert_input docs)) \<and>
   snd (create_alert new_id created alert_input docs) =
     docs @ [fst (create_alert new_id created alert_input docs)]"
    by (simp add: create_alert_def Let_def)
  have "evaluate a current_price change_percent = (False, Empty) \<and>
      (distinct (map alert_id (db_alerts s)) \<and> a \<in> set (db_alerts s) \<and> is_active a \<longrightarrow>
         a \<in> set (db_alerts (run w n s)) \<and>
         (\<forall>c m r. SendMessage a c m r \<notin> set (events_since s (run w n s))) \<and>
         (\<forall>i ts r. UpdateOne a i ts r \<notin> set (events_since s (run w n s))))"
    if kind: "alert_type a \<notin> {''price_above'', ''price_below'', ''percent_up'', ''percent_down''}"
  proof -
    from kind have "evaluate a current_price change_percent = (False, Empty)"
      by (simp add: evaluate_def)
    moreover have "a \<in> set (db_alerts (run w n s)) \<and>
         (\<forall>c m r. SendMessage a c m r \<notin> set (events_since s (run w n s))) \<and>
         (\<forall>i ts r. UpdateOne a i ts r \<notin> set (events_since s (run w n s)))"
      if "distinct (map alert_id (db_alerts s))" "a \<in> set (db_alerts s)"
      using unknown_kind_run [OF kind that, of w n] by fastforce
    ultimately show ?thesis by blast
  qed
  with create show ?thesis by blast
qed

theorem unknown_alert_type_never_triggers_witness:
  "fst (create_alert ''a3'' ''2024-01-01T00:00:00+00:00''
     \<lparr>ac_symbol = ''THYAO.IS'', ac_alert_type = ''crosses_above'', ac_value = Finite 100,
      ac_chat_id = ''42''\<rparr> []) = thyao_crosses \<and>
   evaluate thyao_crosses (Finite 100) (Finite 25) = (False, Empty) \<and>
   db_alerts (run quotes_world (Suc (Suc 0)) (example_state [thyao_crosses])) = [thyao_crosses] \<and>
   events_since (example_state [thyao_crosses])
     (run quotes_world (Suc (Suc 0)) (example_state [thyao_crosses])) =
     [Find None, History thyao_crosses (Inr [Finite 80, Finite 100]), Sleep 30,
      Find None, History thyao_crosses (Inr [Finite 80, Finite 100]), Sleep 30]"
  using unknown_alert_type_never_triggers
    [of "''a3''" "''2024-01-01T00:00:00+00:00''"
        "\<lparr>ac_symbol = ''THYAO.IS'', ac_alert_type = ''crosses_above'', ac_value = Finite 100,
          ac_chat_id = ''42''\<rparr>" "[]" thyao_crosses "Finite 100" "Finite 25"
        "example_state [thyao_crosses]" quotes_world "Suc (Suc 0)"]
  by (simp add: example_defs create_alert_def)

end
